theory Spec2Isabelle
  imports Main
begin

section \<open>The container catalog\<close>

text \<open>
  A container as \<^verbatim>\<open>bay/plugins/build.py\<close> reads it: the attributes \<^verbatim>\<open>name\<close>,
  \<^verbatim>\<open>image_name\<close>, \<^verbatim>\<open>image_tag\<close>, \<^verbatim>\<open>named_volumes\<close> (a dict from mount point to
  volume name, kept as an association list in insertion order), \<^verbatim>\<open>extra_data\<close> (a dict)
  and \<^verbatim>\<open>system\<close>.
\<close>

record container =
  name :: string
  image_name :: string
  image_tag :: string
  named_volumes :: "(string \<times> string) list"
  extra_data :: "(string \<times> string) list"
  system :: bool

text \<open>
  \<^verbatim>\<open>app.containers\<close>: iterating it yields \<open>items\<close>; \<^verbatim>\<open>build_parent(c)\<close> is the optional
  build parent, \<^verbatim>\<open>dependencies(c)\<close> the runtime dependencies, \<^verbatim>\<open>options(c)\<close> a dict.
\<close>

record catalog =
  items :: "container list"
  build_parent :: "container \<Rightarrow> container option"
  dependencies :: "container \<Rightarrow> container list"
  options :: "container \<Rightarrow> (string \<times> bool) list"

datatype error = CycleError | ValueError string | NotFound | HookError string

text \<open>\<^verbatim>\<open>d.get(key)\<close> used as a condition: true for a present, truthy value.\<close>

definition truthy_str :: "string option \<Rightarrow> bool" where
  "truthy_str v = (case v of None \<Rightarrow> False | Some s \<Rightarrow> s \<noteq> [])"

definition provides_volume :: "container \<Rightarrow> string option" where
  "provides_volume c = map_of (extra_data c) ''provides-volume''"

definition in_profile :: "catalog \<Rightarrow> container \<Rightarrow> bool" where
  "in_profile app con = (map_of (options app con) ''in_profile'' = Some True)"

text \<open>
  \<^verbatim>\<open>_get_providers(app)\<close>: a dict from volume name to the container that provides it; a
  later container of the catalog overwrites an earlier one for the same volume.
\<close>

definition add_provider ::
  "(string \<rightharpoonup> container) \<Rightarrow> container \<Rightarrow> (string \<rightharpoonup> container)" where
  "add_provider providers c =
     (if truthy_str (provides_volume c) then providers(the (provides_volume c) \<mapsto> c)
      else providers)"

definition get_providers :: "catalog \<Rightarrow> (string \<rightharpoonup> container)" where
  "get_providers app = foldl add_provider Map.empty (items app)"

section \<open>Dependency sorting\<close>

text \<open>
  Modelled from the spec: \<^verbatim>\<open>bay/utils/sorting.py\<close> (\<^verbatim>\<open>dependency_sort\<close>) is not among
  the sources. Section 4.1 asks for a topological order of the nodes and of everything
  they depend on, every node once and after all it depends on, ties broken by the
  order of the input, and a \<^verbatim>\<open>CycleError\<close> for a cycle, detected within a bound given by
  the node count. The model is a depth-first visit in input order: \<open>trail\<close> holds the
  nodes being visited, \<open>result\<close> the nodes already placed; the first argument bounds the
  depth of the visit by the node count.
\<close>

fun visit :: "nat \<Rightarrow> ('a \<Rightarrow> 'a list) \<Rightarrow> 'a list \<Rightarrow> 'a list \<Rightarrow> 'a \<Rightarrow> error + 'a list"
  and visit_all ::
    "nat \<Rightarrow> ('a \<Rightarrow> 'a list) \<Rightarrow> 'a list \<Rightarrow> 'a list \<Rightarrow> 'a list \<Rightarrow> error + 'a list"
where
  "visit 0 edges trail result node = Inl CycleError"
| "visit (Suc n) edges trail result node =
     (if node \<in> set trail then Inl CycleError
      else if node \<in> set result then Inr result
      else (case visit_all n edges (node # trail) result (edges node) of
              Inl e \<Rightarrow> Inl e
            | Inr r \<Rightarrow> Inr (r @ [node])))"
| "visit_all n edges trail result [] = Inr result"
| "visit_all n edges trail result (d # ds) =
     (case visit n edges trail result d of
        Inl e \<Rightarrow> Inl e
      | Inr r \<Rightarrow> visit_all n edges trail r ds)"

definition dependency_sort ::
  "nat \<Rightarrow> 'a list \<Rightarrow> ('a \<Rightarrow> 'a list) \<Rightarrow> error + 'a list" where
  "dependency_sort node_count nodes edges = visit_all node_count edges [] [] nodes"

text \<open>
  The edge function \<^verbatim>\<open>lambda x: [app.containers.build_parent(x)]\<close>: a container without
  a build parent has no edge.
\<close>

definition parent_edges :: "catalog \<Rightarrow> container \<Rightarrow> container list" where
  "parent_edges app x = (case build_parent app x of None \<Rightarrow> [] | Some p \<Rightarrow> [p])"

definition node_count :: "catalog \<Rightarrow> nat" where
  "node_count app = length (items app)"

section \<open>The build command: resolution\<close>

text \<open>
  The outside world of the command is a state \<open>'s\<close> and the operations on it:
  \<^verbatim>\<open>host.images.pull_image_version\<close> (\<open>False\<close> stands for \<^verbatim>\<open>ImagePullFailure\<close>),
  \<^verbatim>\<open>Builder(...).build()\<close> (\<open>False\<close> stands for \<^verbatim>\<open>BuildFailureError\<close>),
  \<^verbatim>\<open>app.run_hooks\<close> (which may raise), the lines of the log file, and the helpers of
  \<^verbatim>\<open>bay/cli/colors.py\<close> and \<^verbatim>\<open>click\<close>, which are not among the sources.
\<close>

datatype hook = PRE_GROUP_BUILD | POST_GROUP_BUILD

record 's env =
  pull_image_version :: "'s \<Rightarrow> string \<Rightarrow> string \<Rightarrow> bool \<times> 's"
  builder_build :: "'s \<Rightarrow> container \<Rightarrow> string \<Rightarrow> bool \<Rightarrow> bool \<Rightarrow> bool \<times> 's"
  run_hooks :: "'s \<Rightarrow> hook \<Rightarrow> container list \<Rightarrow> error option \<times> 's"
  read_lines :: "'s \<Rightarrow> string \<Rightarrow> string list"
  remove_ansi :: "string \<Rightarrow> string"
  RED :: "string \<Rightarrow> string"
  format_filename :: "string \<Rightarrow> string"

datatype event =
    PullAttempt container bool
  | BuildAttempt container bool
  | HookFired hook "container list"
  | Echo string
  | EchoErr string

text \<open>The command line: a container, or the sentinel \<^verbatim>\<open>ContainerType.Profile\<close>.\<close>

datatype request = Profile | Named container

text \<open>The local variables of \<^verbatim>\<open>build\<close>, the world and what has been observed so far.\<close>

record 's run =
  world :: 's
  trace :: "event list"
  containers_to_pull :: "container list"
  containers_to_build :: "container list"
  pulled_containers :: "container set"
  failed_pulls :: "container set"
  ancestors_to_build :: "container list"

definition init_run :: "'s \<Rightarrow> 's run" where
  "init_run w = \<lparr>world = w, trace = [], containers_to_pull = [], containers_to_build = [],
     pulled_containers = {}, failed_pulls = {}, ancestors_to_build = []\<rparr>"

text \<open>
  \<^verbatim>\<open>for volume in con.named_volumes.values(): if volume in providers: ....append(providers[volume])\<close>
\<close>

definition volume_providers :: "(string \<rightharpoonup> container) \<Rightarrow> container \<Rightarrow> container list" where
  "volume_providers providers con = List.map_filter providers (map snd (named_volumes con))"

definition profile_containers :: "catalog \<Rightarrow> (string \<rightharpoonup> container) \<Rightarrow> container list" where
  "profile_containers app providers =
     concat (map (\<lambda>con. if in_profile app con \<or> system con
                         then con # volume_providers providers con else [])
                 (items app))"

text \<open>
  Lines 168-182: the sentinel puts the containers of the profile and the system
  containers, each followed by the providers of its volumes, on \<^verbatim>\<open>containers_to_pull\<close>;
  a named container goes on \<^verbatim>\<open>containers_to_build\<close>, followed by the providers of its
  volumes.
\<close>

fun expand :: "catalog \<Rightarrow> (string \<rightharpoonup> container) \<Rightarrow> request list \<Rightarrow> 's run \<Rightarrow> 's run" where
  "expand app providers [] st = st"
| "expand app providers (Profile # rest) st =
     expand app providers rest
       (st\<lparr>containers_to_pull := containers_to_pull st @ profile_containers app providers\<rparr>)"
| "expand app providers (Named c # rest) st =
     expand app providers rest
       (st\<lparr>containers_to_build := containers_to_build st @ c # volume_providers providers c\<rparr>)"

definition try_pull :: "'s env \<Rightarrow> container \<Rightarrow> 's run \<Rightarrow> bool \<times> 's run" where
  "try_pull env c st =
     (let (ok, w) = pull_image_version env (world st) (image_name c) (image_tag c)
      in (ok, st\<lparr>world := w, trace := trace st @ [PullAttempt c ok]\<rparr>))"

text \<open>Lines 191-204: the pull phase over the sorted pull list.\<close>

fun pull_phase :: "'s env \<Rightarrow> container list \<Rightarrow> 's run \<Rightarrow> 's run" where
  "pull_phase env [] st = st"
| "pull_phase env (c # cs) st =
     (case try_pull env c st of
        (False, st') \<Rightarrow>
          pull_phase env cs
            (st'\<lparr>failed_pulls := insert c (failed_pulls st'),
                 containers_to_build := containers_to_build st' @ [c]\<rparr>)
      | (True, st') \<Rightarrow>
          pull_phase env cs (st'\<lparr>pulled_containers := insert c (pulled_containers st')\<rparr>))"

text \<open>
  Lines 218-240: the walk over \<^verbatim>\<open>reversed(ancestry)\<close>. A failure (also the short circuit
  for an ancestor in \<^verbatim>\<open>failed_pulls\<close>) puts the ancestor at the front of
  \<^verbatim>\<open>ancestors_to_build\<close> and goes on; a success, or an ancestor pulled before, ends the
  walk (\<^verbatim>\<open>break\<close>).
\<close>

fun walk_ancestry :: "'s env \<Rightarrow> container list \<Rightarrow> 's run \<Rightarrow> 's run" where
  "walk_ancestry env [] st = st"
| "walk_ancestry env (ancestor # older) st =
     (if ancestor \<in> failed_pulls st then
        walk_ancestry env older
          (st\<lparr>failed_pulls := insert ancestor (failed_pulls st),
               ancestors_to_build := ancestor # ancestors_to_build st\<rparr>)
      else if ancestor \<notin> pulled_containers st then
        (case try_pull env ancestor st of
           (False, st') \<Rightarrow>
             walk_ancestry env older
               (st'\<lparr>failed_pulls := insert ancestor (failed_pulls st'),
                    ancestors_to_build := ancestor # ancestors_to_build st'\<rparr>)
         | (True, st') \<Rightarrow> st'\<lparr>pulled_containers := insert ancestor (pulled_containers st')\<rparr>)
      else st\<lparr>pulled_containers := insert ancestor (pulled_containers st)\<rparr>)"

text \<open>
  Line 216: \<^verbatim>\<open>dependency_sort(containers_to_build, lambda x: [build_parent(x)])[:-1]\<close>.
  The expression does not mention the container of the enclosing loop.
\<close>

definition ancestry :: "catalog \<Rightarrow> container list \<Rightarrow> error + container list" where
  "ancestry app to_build =
     (case dependency_sort (node_count app) to_build (parent_edges app) of
        Inl e \<Rightarrow> Inl e
      | Inr ordered \<Rightarrow> Inr (butlast ordered))"

text \<open>
  Lines 209-240: the loop over \<^verbatim>\<open>containers_to_build\<close>. An exception leaves the command
  with the state reached so far.
\<close>

fun resolve_ancestors ::
  "'s env \<Rightarrow> catalog \<Rightarrow> bool \<Rightarrow> container list \<Rightarrow> 's run \<Rightarrow> error \<times> 's run + 's run" where
  "resolve_ancestors env app recursive [] st = Inr st"
| "resolve_ancestors env app recursive (c # cs) st =
     (let st1 = st\<lparr>ancestors_to_build := ancestors_to_build st @ [c]\<rparr> in
      if recursive then
        (case ancestry app (containers_to_build st) of
           Inl e \<Rightarrow> Inl (e, st1)
         | Inr anc \<Rightarrow> resolve_ancestors env app recursive cs (walk_ancestry env (rev anc) st1))
      else resolve_ancestors env app recursive cs st1)"

text \<open>Lines 243-251: sort by build parent, keep what was in the list before.\<close>

definition final_order :: "catalog \<Rightarrow> 's run \<Rightarrow> error \<times> 's run + 's run" where
  "final_order app st =
     (case dependency_sort (node_count app) (ancestors_to_build st) (parent_edges app) of
        Inl e \<Rightarrow> Inl (e, st)
      | Inr sorted_ancestors_to_build \<Rightarrow>
          Inr (st\<lparr>ancestors_to_build :=
                 filter (\<lambda>c. c \<in> set (ancestors_to_build st)) sorted_ancestors_to_build\<rparr>))"

text \<open>Lines 156-251: everything up to the list of containers to build.\<close>

definition resolve ::
  "'s env \<Rightarrow> catalog \<Rightarrow> request list \<Rightarrow> bool \<Rightarrow> 's \<Rightarrow> error \<times> 's run + 's run" where
  "resolve env app containers recursive w =
     (let st0 = expand app (get_providers app) containers (init_run w) in
      case dependency_sort (node_count app) (containers_to_pull st0) (dependencies app) of
        Inl e \<Rightarrow> Inl (e, st0)
      | Inr ordered \<Rightarrow>
          (let st1 = pull_phase env ordered (st0\<lparr>containers_to_pull := ordered\<rparr>) in
           case resolve_ancestors env app recursive (containers_to_build st1) st1 of
             Inl x \<Rightarrow> Inl x
           | Inr st2 \<Rightarrow> final_order app st2))"

section \<open>The build command: execution\<close>

text \<open>\<^verbatim>\<open>lines = lines[-14:] + [line]\<close> over the lines of the log file.\<close>

definition tail_step :: "string list \<Rightarrow> string \<Rightarrow> string list" where
  "tail_step lines line = drop (length lines - 14) lines @ [line]"

definition log_tail :: "string list \<Rightarrow> string list" where
  "log_tail fh = foldl tail_step [] fh"

text \<open>\<^verbatim>\<open>str.rstrip()\<close>: trailing white space goes (the ASCII white space of Python).\<close>

definition isspace :: "char \<Rightarrow> bool" where
  "isspace ch = (ch \<in> set [CHR '' '', CHR 0x09, CHR 0x0A, CHR 0x0B, CHR 0x0C, CHR 0x0D,
                            CHR 0x1C, CHR 0x1D, CHR 0x1E, CHR 0x1F])"

definition rstrip :: "string \<Rightarrow> string" where
  "rstrip s = rev (dropWhile isspace (rev s))"

text \<open>Lines 274-282: what the command prints when a build fails.\<close>

definition failure_report :: "'s env \<Rightarrow> string \<Rightarrow> 's \<Rightarrow> event list" where
  "failure_report env logfile_name w =
     Echo (RED env ''Build failed! Last 15 lines of log:'')
     # map (\<lambda>line. Echo (''  '' @ rstrip (remove_ansi env line)))
           (log_tail (read_lines env w logfile_name))
     @ [EchoErr (''See full build log at '' @ format_filename env logfile_name)]"

text \<open>
  Lines 261-283: the builds, one after the other. \<open>Some 1\<close> is \<^verbatim>\<open>sys.exit(1)\<close>, \<open>None\<close> the
  end of the loop.
\<close>

fun run_builds ::
  "'s env \<Rightarrow> string \<Rightarrow> bool \<Rightarrow> bool \<Rightarrow> container list \<Rightarrow> 's run \<Rightarrow> nat option \<times> 's run" where
  "run_builds env logfile_name cache verbose [] st = (None, st)"
| "run_builds env logfile_name cache verbose (c # cs) st =
     (case builder_build env (world st) c logfile_name cache verbose of
        (True, w) \<Rightarrow>
          run_builds env logfile_name cache verbose cs
            (st\<lparr>world := w, trace := trace st @ [BuildAttempt c True]\<rparr>)
      | (False, w) \<Rightarrow>
          (Some 1,
           st\<lparr>world := w,
              trace := trace st @ BuildAttempt c False # failure_report env logfile_name w\<rparr>))"

definition fire :: "'s env \<Rightarrow> hook \<Rightarrow> container list \<Rightarrow> 's run \<Rightarrow> error option \<times> 's run" where
  "fire env h cs st =
     (let (raised, w) = run_hooks env (world st) h cs
      in (raised, st\<lparr>world := w, trace := trace st @ [HookFired h cs]\<rparr>))"

datatype outcome = Returned | Exit nat | Raised error

text \<open>
  The command \<^verbatim>\<open>build\<close>. The task display and the line with the elapsed time at the end
  read the clock and the terminal and are left out.
\<close>

definition build ::
  "'s env \<Rightarrow> catalog \<Rightarrow> string \<Rightarrow> request list \<Rightarrow> bool \<Rightarrow> bool \<Rightarrow> bool \<Rightarrow> 's
     \<Rightarrow> outcome \<times> 's run" where
  "build env app logfile_name containers cache recursive verbose w =
     (case resolve env app containers recursive w of
        Inl (e, st) \<Rightarrow> (Raised e, st)
      | Inr st \<Rightarrow>
          (case fire env PRE_GROUP_BUILD (ancestors_to_build st) st of
             (Some e, st1) \<Rightarrow> (Raised e, st1)
           | (None, st1) \<Rightarrow>
               (case run_builds env logfile_name cache verbose (ancestors_to_build st1) st1 of
                  (Some code, st2) \<Rightarrow> (Exit code, st2)
                | (None, st2) \<Rightarrow>
                    (case fire env POST_GROUP_BUILD (ancestors_to_build st2) st2 of
                       (Some e, st3) \<Rightarrow> (Raised e, st3)
                     | (None, st3) \<Rightarrow> (Returned, st3)))))"

section \<open>The hooks of the build plugin\<close>

text \<open>
  The host as the hooks see it: the image ids and the volumes with their labels (what
  \<^verbatim>\<open>inspect_image\<close> and \<^verbatim>\<open>inspect_volume\<close> read; a volume's \<^verbatim>\<open>Labels\<close> may be null), the
  calls made that change the host, and the rest of the host, which the formation, the
  garbage collector and the container calls of the client work on.
\<close>

datatype call =
    FormationRun "string list"
  | RemoveContainer string
  | GcContainers
  | RemoveVolume string
  | CreateVolume string "(string \<times> string) list"
  | CreateContainer string string
  | Start string
  | Wait string

record 'r docker =
  image_id :: "string \<rightharpoonup> string"
  volume_labels :: "string \<rightharpoonup> (string \<times> string) list option"
  calls :: "call list"
  other :: 'r

record 'r client =
  instances_using_volume :: "'r \<Rightarrow> string \<Rightarrow> string list"
  formation_run :: "'r \<Rightarrow> string list \<Rightarrow> error option \<times> 'r"
  remove_container :: "'r \<Rightarrow> string \<Rightarrow> 'r"
  gc_containers :: "'r \<Rightarrow> 'r"
  create_container :: "'r \<Rightarrow> string \<Rightarrow> string \<Rightarrow> string \<times> 'r"
  start_container :: "'r \<Rightarrow> string \<Rightarrow> 'r"
  wait_container :: "'r \<Rightarrow> string \<Rightarrow> 'r"
  provider_build :: "'r docker \<Rightarrow> container \<Rightarrow> bool \<times> 'r docker"

text \<open>Lines 86-94.\<close>

definition should_extract_volume :: "'r docker \<Rightarrow> container \<Rightarrow> string \<Rightarrow> bool" where
  "should_extract_volume host c image_Id =
     (if \<not> truthy_str (provides_volume c) then False
      else (case volume_labels host (the (provides_volume c)) of
              None \<Rightarrow> True
            | Some details \<Rightarrow>
                map_of (case details of None \<Rightarrow> [] | Some labels \<Rightarrow> labels) ''build_id''
                  \<noteq> Some image_Id))"

text \<open>Lines 107-110: remove the stopped instances one by one.\<close>

fun remove_all :: "'r client \<Rightarrow> string list \<Rightarrow> 'r docker \<Rightarrow> 'r docker" where
  "remove_all cl [] host = host"
| "remove_all cl (i # rest) host =
     remove_all cl rest
       (host\<lparr>other := remove_container cl (other host) i,
             calls := calls host @ [RemoveContainer i]\<rparr>)"

text \<open>Lines 98-110: stop and remove every instance that has the volume mounted.\<close>

definition stop_instances :: "'r client \<Rightarrow> string \<Rightarrow> 'r docker \<Rightarrow> error + 'r docker" where
  "stop_instances cl pv host =
     (let instances_to_remove = instances_using_volume cl (other host) pv in
      if instances_to_remove \<noteq> [] then
        (case formation_run cl (other host) instances_to_remove of
           (Some e, r) \<Rightarrow>
             Inl e
         | (None, r) \<Rightarrow>
             Inr (remove_all cl instances_to_remove
                    (host\<lparr>other := r, calls := calls host @ [FormationRun instances_to_remove]\<rparr>)))
      else Inr host)"

text \<open>Line 113.\<close>

definition collect_garbage :: "'r client \<Rightarrow> 'r docker \<Rightarrow> 'r docker" where
  "collect_garbage cl host =
     host\<lparr>other := gc_containers cl (other host), calls := calls host @ [GcContainers]\<rparr>"

text \<open>
  Lines 117-122: remove the volume (a missing volume is tolerated) and create it with
  the label \<^verbatim>\<open>build_id\<close>.
\<close>

definition recreate_volume :: "string \<Rightarrow> string \<Rightarrow> 'r docker \<Rightarrow> 'r docker" where
  "recreate_volume pv image_Id host =
     (let h1 = (case volume_labels host pv of
                  None \<Rightarrow> host
                | Some details \<Rightarrow>
                    host\<lparr>volume_labels := (volume_labels host)(pv := None),
                         calls := calls host @ [RemoveVolume pv]\<rparr>)
      in h1\<lparr>volume_labels := (volume_labels h1)(pv \<mapsto> Some [(''build_id'', image_Id)]),
            calls := calls h1 @ [CreateVolume pv [(''build_id'', image_Id)]]\<rparr>)"

text \<open>Lines 125-139: run the image once with the volume bound at \<^verbatim>\<open>/volume/\<close>.\<close>

definition extract_volume :: "'r client \<Rightarrow> container \<Rightarrow> string \<Rightarrow> 'r docker \<Rightarrow> 'r docker" where
  "extract_volume cl c pv host =
     (let (pointer, r1) = create_container cl (other host) (image_name c) pv;
          r2 = start_container cl r1 pointer;
          r3 = wait_container cl r2 pointer;
          r4 = remove_container cl r3 pointer
      in host\<lparr>other := r4,
              calls := calls host @ [CreateContainer (image_name c) pv, Start pointer,
                                     Wait pointer, RemoveContainer pointer]\<rparr>)"

text \<open>Lines 76-140: the hook \<^verbatim>\<open>POST_BUILD\<close>.\<close>

definition post_build :: "'r client \<Rightarrow> 'r docker \<Rightarrow> container \<Rightarrow> error + 'r docker" where
  "post_build cl host c =
     (case image_id host (image_name c) of
        None \<Rightarrow> Inl NotFound
      | Some image_Id \<Rightarrow>
          if should_extract_volume host c image_Id then
            (let pv = the (provides_volume c) in
             case stop_instances cl pv host of
               Inl e \<Rightarrow> Inl e
             | Inr h1 \<Rightarrow>
                 Inr (extract_volume cl c pv (recreate_volume pv image_Id (collect_garbage cl h1))))
          else Inr host)"

text \<open>
  Lines 43-74: the hook \<^verbatim>\<open>PRE_START\<close>. The instance is read through its container only.
  What the hook sees and does is recorded: each volume inspected, with whether it was
  found, and each provider built, with whether the build went through (\<open>False\<close> stands
  for the exception of the builder, which leaves the hook).
\<close>

record running_instance =
  instance_name :: string
  instance_container :: container

datatype start_event = Inspected string bool | Built container bool

fun build_missing ::
  "'r client \<Rightarrow> (string \<rightharpoonup> container) \<Rightarrow> string list \<Rightarrow> 'r docker \<times> start_event list
     \<Rightarrow> bool \<times> 'r docker \<times> start_event list" where
  "build_missing cl providers [] (host, tr) = (True, host, tr)"
| "build_missing cl providers (v # vs) (host, tr) =
     (case providers v of
        None \<Rightarrow> build_missing cl providers vs (host, tr)
      | Some p \<Rightarrow>
          (case volume_labels host v of
             Some details \<Rightarrow> build_missing cl providers vs (host, tr @ [Inspected v True])
           | None \<Rightarrow>
               (case provider_build cl host p of
                  (True, h) \<Rightarrow>
                    build_missing cl providers vs (h, tr @ [Inspected v False, Built p True])
                | (False, h) \<Rightarrow> (False, h, tr @ [Inspected v False, Built p False]))))"

datatype start_outcome = Vetoed error | BuildFailed | Proceed

definition pre_start ::
  "'r client \<Rightarrow> catalog \<Rightarrow> 'r docker \<Rightarrow> running_instance \<Rightarrow> start_outcome \<times> 'r docker \<times> start_event list"
  where
  "pre_start cl app host inst =
     (let c = instance_container inst in
      if truthy_str (provides_volume c) then
        (Vetoed (ValueError (''You cannot run a volume-providing container '' @ name c)), host, [])
      else
        (case build_missing cl (get_providers app) (map snd (named_volumes c)) (host, []) of
           (True, h, tr) \<Rightarrow> (Proceed, h, tr)
         | (False, h, tr) \<Rightarrow> (BuildFailed, h, tr)))"

section \<open>Notions used in the properties\<close>

text \<open>The state a run of the resolution ends in, also when it ends with an exception.\<close>

definition state_of :: "error \<times> 's run + 's run \<Rightarrow> 's run" where
  "state_of r = (case r of Inl (e, st) \<Rightarrow> st | Inr st \<Rightarrow> st)"

text \<open>
  What the expansion puts into \<^verbatim>\<open>containers_to_build\<close> (the containers named on the
  command line, each followed by the providers of its volumes) and into
  \<^verbatim>\<open>containers_to_pull\<close> (the expansion of the sentinel).
\<close>

definition explicit_targets :: "catalog \<Rightarrow> request list \<Rightarrow> container list" where
  "explicit_targets app containers =
     concat (map (\<lambda>r. case r of Profile \<Rightarrow> []
                        | Named c \<Rightarrow> c # volume_providers (get_providers app) c) containers)"

definition profile_targets :: "catalog \<Rightarrow> request list \<Rightarrow> container list" where
  "profile_targets app containers =
     concat (map (\<lambda>r. case r of Profile \<Rightarrow> profile_containers app (get_providers app)
                        | Named c \<Rightarrow> []) containers)"

text \<open>
  The invariant of the resolution: the two sets of pull outcomes are disjoint and are
  exactly what the trace shows, everything queued was requested explicitly or failed
  its pull, and the trace holds pull attempts only.
\<close>

definition consistent :: "container list \<Rightarrow> 's run \<Rightarrow> bool" where
  "consistent explicit st \<longleftrightarrow>
     pulled_containers st \<inter> failed_pulls st = {} \<and>
     (\<forall>c. c \<in> pulled_containers st \<longleftrightarrow> PullAttempt c True \<in> set (trace st)) \<and>
     (\<forall>c. c \<in> failed_pulls st \<longleftrightarrow> PullAttempt c False \<in> set (trace st)) \<and>
     set (containers_to_build st) \<subseteq> set explicit \<union> failed_pulls st \<and>
     set (ancestors_to_build st) \<subseteq> set explicit \<union> failed_pulls st \<and>
     (\<forall>e \<in> set (trace st). \<exists>c ok. e = PullAttempt c ok)"

text \<open>
  What the hook \<^verbatim>\<open>PRE_START\<close> is to do for the volumes of a container, in their order:
  nothing for a volume without provider; for a volume with a provider an inspection,
  followed by the build of the provider when the volume was not found; a failed build
  ends the hook.
\<close>

fun on_demand :: "(string \<rightharpoonup> container) \<Rightarrow> string list \<Rightarrow> start_event list \<Rightarrow> bool \<Rightarrow> bool" where
  "on_demand P [] tr ok = (tr = [] \<and> ok)"
| "on_demand P (v # vs) tr ok =
     (case P v of
        None \<Rightarrow> on_demand P vs tr ok
      | Some p \<Rightarrow>
          (\<exists>rest. (tr = Inspected v True # rest \<and> on_demand P vs rest ok)
                \<or> (tr = Inspected v False # Built p True # rest \<and> on_demand P vs rest ok)
                \<or> (tr = [Inspected v False, Built p False] \<and> \<not> ok)))"

section \<open>Example catalogs and hosts\<close>

text \<open>A container with nothing but a name, and the chain \<open>a \<rightarrow> b \<rightarrow> c\<close> of build parents.\<close>

definition plain :: "string \<Rightarrow> container" where
  "plain n = \<lparr>name = n, image_name = n, image_tag = ''latest'', named_volumes = [],
     extra_data = [], system = False\<rparr>"

definition chain_catalog :: catalog where
  "chain_catalog =
     \<lparr>items = [plain ''a'', plain ''b'', plain ''c''],
      build_parent = (\<lambda>x. if x = plain ''c'' then Some (plain ''b'')
                           else if x = plain ''b'' then Some (plain ''a'') else None),
      dependencies = (\<lambda>x. []),
      options = (\<lambda>x. [])\<rparr>"

text \<open>A host without state where every pull fails, and one where every pull succeeds.\<close>

definition offline :: "unit env" where
  "offline =
     \<lparr>pull_image_version = (\<lambda>s n t. (False, s)),
      builder_build = (\<lambda>s c l cache verbose. (True, s)),
      run_hooks = (\<lambda>s h cs. (None, s)),
      read_lines = (\<lambda>s f. []),
      remove_ansi = (\<lambda>l. l), RED = (\<lambda>l. l), format_filename = (\<lambda>f. f)\<rparr>"

definition online :: "unit env" where
  "online = offline\<lparr>pull_image_version := (\<lambda>s n t. (True, s))\<rparr>"

text \<open>A host where only the image named \<open>b\<close> can be pulled.\<close>

definition b_available :: "unit env" where
  "b_available = offline\<lparr>pull_image_version := (\<lambda>s n t. (n = ''b'', s))\<rparr>"

text \<open>Two containers without build parents.\<close>

definition roots_catalog :: catalog where
  "roots_catalog =
     \<lparr>items = [plain ''x'', plain ''y''],
      build_parent = (\<lambda>x. None),
      dependencies = (\<lambda>x. []),
      options = (\<lambda>x. [])\<rparr>"

text \<open>
  A container that provides the volume \<open>assets\<close>, a container that mounts it, and a
  host that holds the image of the provider and no volume. The client does nothing
  to the rest of the host; its builder always succeeds and leaves the host as it is.
\<close>

definition assets_provider :: container where
  "assets_provider = (plain ''assets-builder'')\<lparr>extra_data := [(''provides-volume'', ''assets'')]\<rparr>"

definition web :: container where
  "web = (plain ''web'')\<lparr>named_volumes := [(''/srv/assets'', ''assets'')]\<rparr>"

definition volume_catalog :: catalog where
  "volume_catalog =
     \<lparr>items = [assets_provider, web],
      build_parent = (\<lambda>x. None),
      dependencies = (\<lambda>x. []),
      options = (\<lambda>x. [])\<rparr>"

definition idle_client :: "unit client" where
  "idle_client =
     \<lparr>instances_using_volume = (\<lambda>r v. []),
      formation_run = (\<lambda>r is. (None, r)),
      remove_container = (\<lambda>r i. r),
      gc_containers = (\<lambda>r. r),
      create_container = (\<lambda>r image v. (''run-1'', r)),
      start_container = (\<lambda>r i. r),
      wait_container = (\<lambda>r i. r),
      provider_build = (\<lambda>h c. (True, h))\<rparr>"

definition built_host :: "unit docker" where
  "built_host =
     \<lparr>image_id = [''assets-builder'' \<mapsto> ''sha256:1''],
      volume_labels = Map.empty,
      calls = [],
      other = ()\<rparr>"

text \<open>
  A profile of two containers that mount the same provided volume; one of them needs
  a database at run time that is not in the profile.
\<close>

definition worker :: container where
  "worker = (plain ''worker'')\<lparr>named_volumes := [(''/data'', ''assets'')]\<rparr>"

definition profile_catalog :: catalog where
  "profile_catalog =
     \<lparr>items = [web, worker, assets_provider, plain ''db''],
      build_parent = (\<lambda>x. None),
      dependencies = (\<lambda>x. if x = web then [plain ''db''] else []),
      options = (\<lambda>x. if x = web \<or> x = worker then [(''in_profile'', True)] else [])\<rparr>"

text \<open>
  A host where every pull fails, the build of the container named \<open>b\<close> fails, and the
  log file has two lines.
\<close>

definition b_fails :: "unit env" where
  "b_fails =
     offline\<lparr>builder_build := (\<lambda>s c l cache verbose. (name c \<noteq> ''b'', s)),
             read_lines := (\<lambda>s f. [''Step 1/2 : FROM a'' @ [CHR 0x0A],
                                     ''boom  '' @ [CHR 0x0A]])\<rparr>"

section \<open>Properties of dependency sorting\<close>

lemma visit_invariant:
  "(visit n edges trail result node = Inr r \<longrightarrow>
      (\<exists>new. r = result @ new \<and> set new \<inter> set trail = {} \<and> node \<in> set r
             \<and> (distinct result \<longrightarrow> distinct r)))"
  "(visit_all n edges trail result ds = Inr r \<longrightarrow>
      (\<exists>new. r = result @ new \<and> set new \<inter> set trail = {} \<and> set ds \<subseteq> set r
             \<and> (distinct result \<longrightarrow> distinct r)))"
proof (induction n edges trail result node and n edges trail result ds arbitrary: r and r
    rule: visit_visit_all.induct)
  case (1 edges trail result node)
  show ?case by simp
next
  case (2 n edges trail result node)
  show ?case
  proof (intro impI)
    assume a: "visit (Suc n) edges trail result node = Inr r"
    show "\<exists>new. r = result @ new \<and> set new \<inter> set trail = {} \<and> node \<in> set r
             \<and> (distinct result \<longrightarrow> distinct r)"
    proof (cases "node \<in> set trail")
      case True
      with a show ?thesis by simp
    next
      case nt: False
      show ?thesis
      proof (cases "node \<in> set result")
        case True
        with a nt show ?thesis by auto
      next
        case nr: False
        from a nt nr obtain r' where
          r': "visit_all n edges (node # trail) result (edges node) = Inr r'"
          and r: "r = r' @ [node]"
          by (auto split: sum.splits)
        from "2.IH" [OF nt nr] r' obtain new where
          new: "r' = result @ new" "set new \<inter> set (node # trail) = {}"
               "distinct result \<longrightarrow> distinct r'"
          by blast
        have "r = result @ (new @ [node])" using r new by simp
        moreover have "set (new @ [node]) \<inter> set trail = {}" using new nt by auto
        moreover have "node \<in> set r" using r by simp
        moreover have "distinct result \<longrightarrow> distinct r" using r new nr by auto
        ultimately show ?thesis by blast
      qed
    qed
  qed
next
  case (3 n edges trail result)
  show ?case by simp
next
  case (4 n edges trail result d ds)
  show ?case
  proof (intro impI)
    assume a: "visit_all n edges trail result (d # ds) = Inr r"
    then obtain r1 where r1: "visit n edges trail result d = Inr r1"
      and r2: "visit_all n edges trail r1 ds = Inr r"
      by (auto split: sum.splits)
    from "4.IH"(1) r1 obtain new1 where
      n1: "r1 = result @ new1" "set new1 \<inter> set trail = {}" "d \<in> set r1"
          "distinct result \<longrightarrow> distinct r1"
      by blast
    from "4.IH"(2) [OF r1] r2 obtain new2 where
      n2: "r = r1 @ new2" "set new2 \<inter> set trail = {}" "set ds \<subseteq> set r"
          "distinct r1 \<longrightarrow> distinct r"
      by blast
    have "r = result @ (new1 @ new2)" using n1 n2 by simp
    moreover have "set (new1 @ new2) \<inter> set trail = {}" using n1 n2 by auto
    moreover have "set (d # ds) \<subseteq> set r" using n1 n2 by auto
    moreover have "distinct result \<longrightarrow> distinct r" using n1 n2 by simp
    ultimately show "\<exists>new. r = result @ new \<and> set new \<inter> set trail = {}
        \<and> set (d # ds) \<subseteq> set r \<and> (distinct result \<longrightarrow> distinct r)"
      by blast
  qed
qed

lemma dependency_sort_distinct:
  "dependency_sort n nodes edges = Inr r \<Longrightarrow> distinct r"
  using visit_invariant(2) [of n edges "[]" "[]" nodes r]
  by (auto simp: dependency_sort_def)

lemma dependency_sort_superset:
  "dependency_sort n nodes edges = Inr r \<Longrightarrow> set nodes \<subseteq> set r"
  using visit_invariant(2) [of n edges "[]" "[]" nodes r]
  by (auto simp: dependency_sort_def)

lemma visit_closed:
  "(visit n edges trail result node = Inr r \<longrightarrow>
      (\<forall>x \<in> set result. set (edges x) \<subseteq> set result) \<longrightarrow>
      (\<forall>x \<in> set r. set (edges x) \<subseteq> set r))"
  "(visit_all n edges trail result ds = Inr r \<longrightarrow>
      (\<forall>x \<in> set result. set (edges x) \<subseteq> set result) \<longrightarrow>
      (\<forall>x \<in> set r. set (edges x) \<subseteq> set r))"
proof (induction n edges trail result node and n edges trail result ds arbitrary: r and r
    rule: visit_visit_all.induct)
  case (1 edges trail result node)
  show ?case by simp
next
  case (2 n edges trail result node)
  show ?case
  proof (intro impI)
    assume a: "visit (Suc n) edges trail result node = Inr r"
      and cl: "\<forall>x \<in> set result. set (edges x) \<subseteq> set result"
    show "\<forall>x \<in> set r. set (edges x) \<subseteq> set r"
    proof (cases "node \<in> set trail \<or> node \<in> set result")
      case True
      with a cl show ?thesis by (auto split: if_splits)
    next
      case False
      then have nt: "node \<notin> set trail" and nr: "node \<notin> set result" by simp_all
      from a nt nr obtain r' where
        r': "visit_all n edges (node # trail) result (edges node) = Inr r'"
        and r: "r = r' @ [node]"
        by (auto split: sum.splits)
      have "\<forall>x \<in> set r'. set (edges x) \<subseteq> set r'"
        using "2.IH" [OF nt nr] r' cl by blast
      moreover have "set (edges node) \<subseteq> set r'"
        using visit_invariant(2) [of n edges "node # trail" result "edges node" r'] r'
        by blast
      ultimately show ?thesis unfolding r by auto
    qed
  qed
next
  case (3 n edges trail result)
  show ?case by simp
next
  case (4 n edges trail result d ds)
  show ?case
  proof (intro impI)
    assume a: "visit_all n edges trail result (d # ds) = Inr r"
      and cl: "\<forall>x \<in> set result. set (edges x) \<subseteq> set result"
    from a obtain r1 where r1: "visit n edges trail result d = Inr r1"
      and r2: "visit_all n edges trail r1 ds = Inr r"
      by (auto split: sum.splits)
    have "\<forall>x \<in> set r1. set (edges x) \<subseteq> set r1"
      using "4.IH"(1) r1 cl by blast
    then show "\<forall>x \<in> set r. set (edges x) \<subseteq> set r"
      using "4.IH"(2) [OF r1] r2 by blast
  qed
qed

lemma dependency_sort_closed:
  "dependency_sort n nodes edges = Inr r \<Longrightarrow> x \<in> set r \<Longrightarrow> set (edges x) \<subseteq> set r"
  using visit_closed(2) [of n edges "[]" "[]" nodes r]
  by (auto simp: dependency_sort_def)

section \<open>Properties of the resolution\<close>

lemma try_pull_fail:
  "\<not> fst (pull_image_version env (world st) (image_name c) (image_tag c)) \<Longrightarrow>
   try_pull env c st =
     (False, st\<lparr>world := snd (pull_image_version env (world st) (image_name c) (image_tag c)),
                 trace := trace st @ [PullAttempt c False]\<rparr>)"
  by (cases "pull_image_version env (world st) (image_name c) (image_tag c)")
     (simp add: try_pull_def)

lemma three_members_length:
  assumes "A \<noteq> B" "A \<noteq> C" "B \<noteq> C" "A \<in> set xs" "B \<in> set xs" "C \<in> set xs"
  shows "\<exists>m. length xs = Suc (Suc (Suc m))"
proof -
  have "card {A, B, C} \<le> card (set xs)"
    using assms by (intro card_mono) auto
  moreover have "card {A, B, C} = 3" using assms by simp
  moreover have "card (set xs) \<le> length xs" by (rule card_length)
  ultimately have "3 \<le> length xs" by linarith
  then show ?thesis by presburger
qed

text \<open>The invariant holds along the whole resolution.\<close>

lemma try_pull_effect:
  "try_pull env c st = (ok, st') \<Longrightarrow>
     \<exists>w'. st' = st\<lparr>world := w', trace := trace st @ [PullAttempt c ok]\<rparr>"
  by (auto simp: try_pull_def split: prod.splits)

lemma pull_phase_consistent:
  "consistent E st \<Longrightarrow> distinct cs \<Longrightarrow>
   set cs \<inter> (pulled_containers st \<union> failed_pulls st) = {} \<Longrightarrow>
   consistent E (pull_phase env cs st)"
proof (induction cs arbitrary: st)
  case Nil
  then show ?case by simp
next
  case (Cons c cs)
  obtain ok st' where tp: "try_pull env c st = (ok, st')" by (cases "try_pull env c st")
  from try_pull_effect [OF tp] obtain w' where
    st': "st' = st\<lparr>world := w', trace := trace st @ [PullAttempt c ok]\<rparr>" by blast
  show ?case
  proof (cases ok)
    case True
    let ?s = "st'\<lparr>pulled_containers := insert c (pulled_containers st')\<rparr>"
    have "consistent E ?s"
      using Cons.prems True unfolding consistent_def st' by auto
    moreover have "set cs \<inter> (pulled_containers ?s \<union> failed_pulls ?s) = {}"
      using Cons.prems unfolding st' by auto
    ultimately have "consistent E (pull_phase env cs ?s)"
      using Cons.IH Cons.prems(2) by simp
    then show ?thesis using tp True by simp
  next
    case False
    let ?s = "st'\<lparr>failed_pulls := insert c (failed_pulls st'),
                  containers_to_build := containers_to_build st' @ [c]\<rparr>"
    have "consistent E ?s"
      using Cons.prems False unfolding consistent_def st' by auto
    moreover have "set cs \<inter> (pulled_containers ?s \<union> failed_pulls ?s) = {}"
      using Cons.prems unfolding st' by auto
    ultimately have "consistent E (pull_phase env cs ?s)"
      using Cons.IH Cons.prems(2) by simp
    then show ?thesis using tp False by simp
  qed
qed

lemma walk_ancestry_consistent:
  "consistent E st \<Longrightarrow> consistent E (walk_ancestry env as st)"
proof (induction as arbitrary: st)
  case Nil
  then show ?case by simp
next
  case (Cons a as)
  show ?case
  proof (cases "a \<in> failed_pulls st")
    case True
    let ?s = "st\<lparr>failed_pulls := insert a (failed_pulls st),
                 ancestors_to_build := a # ancestors_to_build st\<rparr>"
    have "consistent E ?s" using Cons.prems True unfolding consistent_def by auto
    then show ?thesis using True Cons.IH by simp
  next
    case nf: False
    show ?thesis
    proof (cases "a \<in> pulled_containers st")
      case True
      have "consistent E (st\<lparr>pulled_containers := insert a (pulled_containers st)\<rparr>)"
        using Cons.prems True nf unfolding consistent_def by auto
      then show ?thesis using True nf by simp
    next
      case np: False
      obtain ok st' where tp: "try_pull env a st = (ok, st')" by (cases "try_pull env a st")
      from try_pull_effect [OF tp] obtain w' where
        st': "st' = st\<lparr>world := w', trace := trace st @ [PullAttempt a ok]\<rparr>" by blast
      show ?thesis
      proof (cases ok)
        case True
        have "consistent E (st'\<lparr>pulled_containers := insert a (pulled_containers st')\<rparr>)"
          using Cons.prems True nf np unfolding consistent_def st' by auto
        then show ?thesis using True nf np tp by simp
      next
        case False
        let ?s = "st'\<lparr>failed_pulls := insert a (failed_pulls st'),
                      ancestors_to_build := a # ancestors_to_build st'\<rparr>"
        have "consistent E ?s"
          using Cons.prems False nf np unfolding consistent_def st' by auto
        then show ?thesis using False nf np tp Cons.IH by simp
      qed
    qed
  qed
qed

lemma walk_ancestry_to_build:
  "containers_to_build (walk_ancestry env as st) = containers_to_build st"
proof (induction as arbitrary: st)
  case Nil
  then show ?case by simp
next
  case (Cons a as)
  obtain ok st' where tp: "try_pull env a st = (ok, st')" by (cases "try_pull env a st")
  from try_pull_effect [OF tp] obtain w' where
    st': "st' = st\<lparr>world := w', trace := trace st @ [PullAttempt a ok]\<rparr>" by blast
  show ?case using Cons.IH tp by (cases ok) (simp_all add: st')
qed

lemma resolve_ancestors_consistent:
  "consistent E st \<Longrightarrow> set cs \<subseteq> set (containers_to_build st) \<Longrightarrow>
   consistent E (state_of (resolve_ancestors env app recursive cs st))"
proof (induction cs arbitrary: st)
  case Nil
  then show ?case by (simp add: state_of_def)
next
  case (Cons c cs)
  let ?s1 = "st\<lparr>ancestors_to_build := ancestors_to_build st @ [c]\<rparr>"
  have s1: "consistent E ?s1" using Cons.prems unfolding consistent_def by auto
  show ?case
  proof (cases recursive)
    case False
    then show ?thesis using Cons.IH [OF s1] Cons.prems(2) by (simp add: Let_def)
  next
    case True
    show ?thesis
    proof (cases "ancestry app (containers_to_build st)")
      case (Inl e)
      then show ?thesis using True s1 by (simp add: Let_def state_of_def)
    next
      case (Inr anc)
      have "consistent E (walk_ancestry env (rev anc) ?s1)"
        using s1 by (rule walk_ancestry_consistent)
      moreover have "set cs \<subseteq> set (containers_to_build (walk_ancestry env (rev anc) ?s1))"
        using Cons.prems(2) by (simp add: walk_ancestry_to_build)
      ultimately show ?thesis using Cons.IH True Inr by (simp add: Let_def)
    qed
  qed
qed

lemma expand_fields:
  "trace (expand app P rs st) = trace st \<and>
   pulled_containers (expand app P rs st) = pulled_containers st \<and>
   failed_pulls (expand app P rs st) = failed_pulls st \<and>
   ancestors_to_build (expand app P rs st) = ancestors_to_build st \<and>
   world (expand app P rs st) = world st"
  by (induction app P rs st rule: expand.induct) simp_all

lemma final_order_consistent:
  "consistent E st \<Longrightarrow> consistent E (state_of (final_order app st))"
  unfolding final_order_def state_of_def consistent_def
  by (auto split: sum.splits)

lemma resolve_consistent:
  "consistent (containers_to_build (expand app (get_providers app) containers (init_run w)))
     (state_of (resolve env app containers recursive w))"
proof -
  let ?st0 = "expand app (get_providers app) containers (init_run w)"
  let ?E = "containers_to_build ?st0"
  have c0: "consistent ?E ?st0"
    unfolding consistent_def using expand_fields [of app "get_providers app" containers "init_run w"]
    by (simp add: init_run_def)
  show ?thesis
  proof (cases "dependency_sort (node_count app) (containers_to_pull ?st0) (dependencies app)")
    case (Inl e)
    then show ?thesis using c0 by (simp add: resolve_def Let_def state_of_def)
  next
    case (Inr ordered)
    let ?st1 = "pull_phase env ordered (?st0\<lparr>containers_to_pull := ordered\<rparr>)"
    have c0': "consistent ?E (?st0\<lparr>containers_to_pull := ordered\<rparr>)"
      using c0 unfolding consistent_def by simp
    have emp: "pulled_containers ?st0 = {} \<and> failed_pulls ?st0 = {}"
      using expand_fields [of app "get_providers app" containers "init_run w"]
      by (simp add: init_run_def)
    have c1: "consistent ?E ?st1"
      using c0' dependency_sort_distinct [OF Inr] emp
      by (intro pull_phase_consistent) simp_all
    have c2: "consistent ?E (state_of (resolve_ancestors env app recursive (containers_to_build ?st1) ?st1))"
      using c1 by (intro resolve_ancestors_consistent) simp_all
    show ?thesis
    proof (cases "resolve_ancestors env app recursive (containers_to_build ?st1) ?st1")
      case (Inl x)
      then show ?thesis using c2 Inr by (simp add: resolve_def Let_def state_of_def)
    next
      case r: (Inr st2)
      then have "consistent ?E st2" using c2 by (simp add: state_of_def)
      then have "consistent ?E (state_of (final_order app st2))" by (rule final_order_consistent)
      then show ?thesis using Inr r by (simp add: resolve_def Let_def)
    qed
  qed
qed

text \<open>
  Claim C2. In a catalog with three containers \<open>A\<close>, \<open>B\<close>, \<open>C\<close>, where \<open>A\<close> is the build
  parent of \<open>B\<close> and \<open>B\<close> the build parent of \<open>C\<close> (and \<open>C\<close> mounts no volume that has a
  provider), the request to build \<open>C\<close> with the recursive flag, on a host where every
  pull fails, ends with the build order \<open>[A, B, C]\<close>.
\<close>

theorem chain_all_pulls_fail_order:
  assumes dist: "A \<noteq> B" "A \<noteq> C" "B \<noteq> C"
    and mem: "A \<in> set (items app)" "B \<in> set (items app)" "C \<in> set (items app)"
    and par: "build_parent app C = Some B" "build_parent app B = Some A"
             "build_parent app A = None"
    and vols: "volume_providers (get_providers app) C = []"
    and fail: "\<forall>s n t. \<not> fst (pull_image_version env s n t)"
  shows "\<exists>st. resolve env app [Named C] True w = Inr st \<and> ancestors_to_build st = [A, B, C]"
proof -
  obtain m where n: "node_count app = Suc (Suc (Suc m))"
    using three_members_length [OF dist mem] by (auto simp: node_count_def)
  have srt: "dependency_sort (node_count app) [C] (parent_edges app) = Inr [A, B, C]"
    using dist par by (simp add: n dependency_sort_def parent_edges_def)
  have srt3: "dependency_sort (node_count app) [A, B, C] (parent_edges app) = Inr [A, B, C]"
    using dist par by (simp add: n dependency_sort_def parent_edges_def)
  have srt0: "dependency_sort (node_count app) [] (dependencies app) = Inr []"
    by (simp add: dependency_sort_def)
  show ?thesis
    using dist fail
    by (simp add: resolve_def vols init_run_def srt0 ancestry_def srt try_pull_fail
        final_order_def srt3)
qed

theorem chain_all_pulls_fail_order_witness:
  "\<exists>st. resolve offline chain_catalog [Named (plain ''c'')] True () = Inr st
        \<and> ancestors_to_build st = [plain ''a'', plain ''b'', plain ''c'']"
  by (rule chain_all_pulls_fail_order)
     (simp_all add: chain_catalog_def plain_def offline_def volume_providers_def
        List.map_filter_def)

section \<open>Properties of the whole command\<close>

lemma fire_effect:
  "fire env h cs st = (r, st') \<Longrightarrow>
     \<exists>w'. st' = st\<lparr>world := w', trace := trace st @ [HookFired h cs]\<rparr>"
  by (auto simp: fire_def split: prod.splits)

lemma run_builds_effect:
  "run_builds env lf cache verbose cs st = (r, st') \<Longrightarrow>
     pulled_containers st' = pulled_containers st \<and> failed_pulls st' = failed_pulls st \<and>
     ancestors_to_build st' = ancestors_to_build st \<and>
     (case r of
        None \<Rightarrow> trace st' = trace st @ map (\<lambda>d. BuildAttempt d True) cs
      | Some code \<Rightarrow>
          code = 1 \<and>
          (\<exists>done c remaining. cs = done @ c # remaining \<and>
             trace st' = trace st @ map (\<lambda>d. BuildAttempt d True) done
                           @ BuildAttempt c False # failure_report env lf (world st')))"
proof (induction cs arbitrary: st)
  case Nil
  then show ?case by auto
next
  case (Cons a cs)
  obtain ok w1 where b: "builder_build env (world st) a lf cache verbose = (ok, w1)"
    by (cases "builder_build env (world st) a lf cache verbose")
  show ?case
  proof (cases ok)
    case False
    with Cons.prems b have r: "r = Some 1"
      and st': "st' = st\<lparr>world := w1,
                   trace := trace st @ BuildAttempt a False # failure_report env lf w1\<rparr>"
      by auto
    have "a # cs = [] @ a # cs \<and>
          trace st' = trace st @ map (\<lambda>d. BuildAttempt d True) []
                        @ BuildAttempt a False # failure_report env lf (world st')"
      by (simp add: st')
    then have "\<exists>done c remaining. a # cs = done @ c # remaining \<and>
             trace st' = trace st @ map (\<lambda>d. BuildAttempt d True) done
                           @ BuildAttempt c False # failure_report env lf (world st')"
      by blast
    then show ?thesis using r by (simp add: st')
  next
    case True
    let ?s = "st\<lparr>world := w1, trace := trace st @ [BuildAttempt a True]\<rparr>"
    from Cons.prems b True have rec: "run_builds env lf cache verbose cs ?s = (r, st')"
      by simp
    note ih = Cons.IH [OF rec]
    show ?thesis
    proof (cases r)
      case None
      with ih show ?thesis by simp
    next
      case (Some code)
      with ih obtain "done" c remaining where
        d: "cs = done @ c # remaining"
           "trace st' = trace ?s @ map (\<lambda>d. BuildAttempt d True) done
                           @ BuildAttempt c False # failure_report env lf (world st')"
        and code: "code = 1"
        by auto
      have "a # cs = (a # done) @ c # remaining \<and>
            trace st' = trace st @ map (\<lambda>d. BuildAttempt d True) (a # done)
                           @ BuildAttempt c False # failure_report env lf (world st')"
        using d by simp
      then have "\<exists>done c remaining. a # cs = done @ c # remaining \<and>
             trace st' = trace st @ map (\<lambda>d. BuildAttempt d True) done
                           @ BuildAttempt c False # failure_report env lf (world st')"
        by blast
      then show ?thesis using ih Some code by simp
    qed
  qed
qed

lemma tail_step_last15:
  "tail_step (drop (length ls - 15) ls) l = drop (length (ls @ [l]) - 15) (ls @ [l])"
proof -
  have a: "length ls - (length ls - 15) - 14 + (length ls - 15) = length ls - 14" by arith
  have "tail_step (drop (length ls - 15) ls) l
          = drop (length ls - (length ls - 15) - 14 + (length ls - 15)) ls @ [l]"
    by (simp only: tail_step_def length_drop drop_drop)
  also have "\<dots> = drop (length ls - 14) ls @ [l]" by (simp only: a)
  also have "\<dots> = drop (length (ls @ [l]) - 15) (ls @ [l])" by simp
  finally show ?thesis .
qed

lemma log_tail_last15: "log_tail fh = drop (length fh - 15) fh"
proof (induction fh rule: rev_induct)
  case Nil
  then show ?case by (simp add: log_tail_def)
next
  case (snoc l ls)
  have "log_tail (ls @ [l]) = tail_step (log_tail ls) l" by (simp add: log_tail_def)
  also have "\<dots> = tail_step (drop (length ls - 15) ls) l" by (simp add: snoc.IH)
  also have "\<dots> = drop (length (ls @ [l]) - 15) (ls @ [l])" by (rule tail_step_last15)
  finally show ?case .
qed

lemma expand_lists:
  "containers_to_build (expand app (get_providers app) rs st) =
     containers_to_build st @ explicit_targets app rs \<and>
   containers_to_pull (expand app (get_providers app) rs st) =
     containers_to_pull st @ profile_targets app rs"
proof (induction rs arbitrary: st)
  case Nil
  then show ?case by (simp add: explicit_targets_def profile_targets_def)
next
  case (Cons r rs)
  then show ?case by (cases r) (simp_all add: explicit_targets_def profile_targets_def)
qed

lemma resolve_consistent_explicit:
  "consistent (explicit_targets app containers)
     (state_of (resolve env app containers recursive w))"
  using resolve_consistent [of app containers w env recursive]
  by (simp add: expand_lists init_run_def)

text \<open>The shape of a run of the command.\<close>

lemma build_shape:
  assumes "build env app lf containers cache recursive verbose w = (out, st)"
  shows "(\<exists>e. resolve env app containers recursive w = Inl (e, st) \<and> out = Raised e)
       \<or> (\<exists>st0 rest. resolve env app containers recursive w = Inr st0
            \<and> pulled_containers st = pulled_containers st0
            \<and> failed_pulls st = failed_pulls st0
            \<and> ancestors_to_build st = ancestors_to_build st0
            \<and> trace st = trace st0 @ HookFired PRE_GROUP_BUILD (ancestors_to_build st0) # rest
            \<and> ((\<exists>e. out = Raised e \<and> rest = [])
               \<or> (out = Exit 1 \<and>
                   (\<exists>done c remaining. ancestors_to_build st0 = done @ c # remaining \<and>
                      rest = map (\<lambda>d. BuildAttempt d True) done
                             @ BuildAttempt c False # failure_report env lf (world st)))
               \<or> ((out = Returned \<or> (\<exists>e. out = Raised e)) \<and>
                   rest = map (\<lambda>d. BuildAttempt d True) (ancestors_to_build st0)
                          @ [HookFired POST_GROUP_BUILD (ancestors_to_build st0)])))"
proof (cases "resolve env app containers recursive w")
  case (Inl x)
  then show ?thesis using assms by (cases x) (auto simp: build_def)
next
  case (Inr st0)
  obtain r1 st1 where f1: "fire env PRE_GROUP_BUILD (ancestors_to_build st0) st0 = (r1, st1)"
    by (cases "fire env PRE_GROUP_BUILD (ancestors_to_build st0) st0")
  from fire_effect [OF f1] obtain w1 where
    st1: "st1 = st0\<lparr>world := w1,
            trace := trace st0 @ [HookFired PRE_GROUP_BUILD (ancestors_to_build st0)]\<rparr>"
    by blast
  show ?thesis
  proof (cases r1)
    case (Some e)
    with assms Inr f1 have "out = Raised e" "st = st1" by (auto simp: build_def)
    then show ?thesis using Inr st1 by simp
  next
    case None
    obtain r2 st2 where
      rb: "run_builds env lf cache verbose (ancestors_to_build st1) st1 = (r2, st2)"
      by (cases "run_builds env lf cache verbose (ancestors_to_build st1) st1")
    note eff = run_builds_effect [OF rb]
    have q1: "ancestors_to_build st1 = ancestors_to_build st0" by (simp add: st1)
    show ?thesis
    proof (cases r2)
      case (Some code)
      with assms Inr f1 None rb have o: "out = Exit code" "st = st2" by (auto simp: build_def)
      from eff Some obtain "done" c remaining where
        d: "code = 1" "ancestors_to_build st1 = done @ c # remaining"
           "trace st2 = trace st1 @ map (\<lambda>d. BuildAttempt d True) done
                           @ BuildAttempt c False # failure_report env lf (world st2)"
        by auto
      have tr: "trace st = trace st0 @ HookFired PRE_GROUP_BUILD (ancestors_to_build st0)
                  # (map (\<lambda>d. BuildAttempt d True) done
                     @ BuildAttempt c False # failure_report env lf (world st))"
        using d o by (simp add: st1)
      have sets: "pulled_containers st = pulled_containers st0 \<and>
                  failed_pulls st = failed_pulls st0 \<and>
                  ancestors_to_build st = ancestors_to_build st0"
        using eff o by (simp add: st1)
      show ?thesis
        apply (rule disjI2)
        apply (rule exI [of _ st0])
        apply (rule exI [of _ "map (\<lambda>d. BuildAttempt d True) done
                     @ BuildAttempt c False # failure_report env lf (world st)"])
        using Inr sets tr o d q1 by auto
    next
      case n2: None
      obtain r3 st3 where
        f3: "fire env POST_GROUP_BUILD (ancestors_to_build st2) st2 = (r3, st3)"
        by (cases "fire env POST_GROUP_BUILD (ancestors_to_build st2) st2")
      from fire_effect [OF f3] obtain w3 where
        st3: "st3 = st2\<lparr>world := w3,
                trace := trace st2 @ [HookFired POST_GROUP_BUILD (ancestors_to_build st2)]\<rparr>"
        by blast
      from assms Inr f1 None rb n2 f3 have o: "st = st3" "out = Returned \<or> (\<exists>e. out = Raised e)"
        by (auto simp: build_def split: option.splits)
      from eff n2 have t2: "trace st2 = trace st1 @ map (\<lambda>d. BuildAttempt d True) (ancestors_to_build st1)"
        and s2: "pulled_containers st2 = pulled_containers st1" "failed_pulls st2 = failed_pulls st1"
                "ancestors_to_build st2 = ancestors_to_build st1"
        by auto
      have tr: "trace st = trace st0 @ HookFired PRE_GROUP_BUILD (ancestors_to_build st0)
                  # (map (\<lambda>d. BuildAttempt d True) (ancestors_to_build st0)
                          @ [HookFired POST_GROUP_BUILD (ancestors_to_build st0)])"
        using o t2 s2 q1 by (simp add: st3 st1)
      have sets: "pulled_containers st = pulled_containers st0 \<and>
                  failed_pulls st = failed_pulls st0 \<and>
                  ancestors_to_build st = ancestors_to_build st0"
        using s2 o by (simp add: st3 st1)
      show ?thesis
        apply (rule disjI2)
        apply (rule exI [of _ st0])
        apply (rule exI [of _ "map (\<lambda>d. BuildAttempt d True) (ancestors_to_build st0)
                          @ [HookFired POST_GROUP_BUILD (ancestors_to_build st0)]"])
        using Inr sets tr o by auto
    qed
  qed
qed


lemma failure_report_events:
  "e \<in> set (failure_report env lf w) \<Longrightarrow> (\<exists>l. e = Echo l) \<or> (\<exists>l. e = EchoErr l)"
  by (auto simp: failure_report_def)

lemma build_after_resolve:
  assumes "build env app lf containers cache recursive verbose w = (out, st)"
  shows "\<exists>rest. trace st = trace (state_of (resolve env app containers recursive w)) @ rest
           \<and> pulled_containers st
               = pulled_containers (state_of (resolve env app containers recursive w))
           \<and> failed_pulls st = failed_pulls (state_of (resolve env app containers recursive w))
           \<and> (\<forall>e \<in> set rest. \<forall>c ok. e \<noteq> PullAttempt c ok)
           \<and> (\<forall>c ok. BuildAttempt c ok \<in> set rest \<longrightarrow>
                 (\<exists>st0. resolve env app containers recursive w = Inr st0
                        \<and> c \<in> set (ancestors_to_build st0)))"
proof -
  let ?R = "resolve env app containers recursive w"
  have run: "?thesis"
    if a: "?R = Inr st0" "pulled_containers st = pulled_containers st0"
      "failed_pulls st = failed_pulls st0"
      "trace st = trace st0 @ HookFired PRE_GROUP_BUILD (ancestors_to_build st0) # rest"
      and nopull: "\<forall>e \<in> set rest. \<forall>c ok. e \<noteq> PullAttempt c ok"
      and queued: "\<forall>x ok. BuildAttempt x ok \<in> set rest \<longrightarrow> x \<in> set (ancestors_to_build st0)"
    for st0 rest
  proof -
    have "\<forall>e \<in> set (HookFired PRE_GROUP_BUILD (ancestors_to_build st0) # rest).
            \<forall>c ok. e \<noteq> PullAttempt c ok"
      using nopull by simp
    moreover have "\<forall>x ok. BuildAttempt x ok
                     \<in> set (HookFired PRE_GROUP_BUILD (ancestors_to_build st0) # rest)
                   \<longrightarrow> (\<exists>s. ?R = Inr s \<and> x \<in> set (ancestors_to_build s))"
      using queued a(1) by simp
    ultimately show ?thesis using a by (simp only: state_of_def sum.case) blast
  qed
  from build_shape [OF assms] show ?thesis
  proof (elim disjE exE conjE, goal_cases)
    case (1 e)
    then show ?case by (simp add: state_of_def)
  next
    case (2 st0 rest e)
    then show ?case by (intro run [of st0 rest]) simp_all
  next
    case (3 st0 rest "done" c remaining)
    then show ?case
      using failure_report_events [of _ env lf "world st"]
      by (intro run [of st0 rest]) auto
  next
    case (4 st0 rest)
    then show ?case by (intro run [of st0 rest]) auto
  next
    case (5 st0 rest e)
    then show ?case by (intro run [of st0 rest]) auto
  qed
qed

text \<open>
  Claim C8. In the state a run of the command ends in (with or without an exception)
  the set of pulled containers and the set of failed pulls are disjoint, and no
  container has both a successful and a failed pull attempt among the attempts of the
  run, in whatever order they were made. Both sets only ever grow, so they were
  disjoint all along.
\<close>

theorem pull_outcomes_disjoint:
  "pulled_containers (snd (build env app lf containers cache recursive verbose w))
     \<inter> failed_pulls (snd (build env app lf containers cache recursive verbose w)) = {}
   \<and> (\<forall>c. PullAttempt c True
              \<in> set (trace (snd (build env app lf containers cache recursive verbose w)))
          \<longrightarrow> PullAttempt c False
              \<notin> set (trace (snd (build env app lf containers cache recursive verbose w))))"
proof -
  obtain out st where b: "build env app lf containers cache recursive verbose w = (out, st)"
    by (cases "build env app lf containers cache recursive verbose w")
  let ?r = "state_of (resolve env app containers recursive w)"
  from build_after_resolve [OF b] obtain rest where
    r: "trace st = trace ?r @ rest" "pulled_containers st = pulled_containers ?r"
       "failed_pulls st = failed_pulls ?r" "\<forall>e \<in> set rest. \<forall>c ok. e \<noteq> PullAttempt c ok"
    by blast
  have c: "consistent (explicit_targets app containers) ?r"
    by (rule resolve_consistent_explicit)
  have d: "pulled_containers st \<inter> failed_pulls st = {}"
    using c r(2,3) by (simp add: consistent_def)
  have "\<And>x ok. PullAttempt x ok \<in> set (trace st) \<longleftrightarrow> PullAttempt x ok \<in> set (trace ?r)"
    using r(1,4) by auto
  then have "\<forall>x. PullAttempt x True \<in> set (trace st) \<longrightarrow> PullAttempt x False \<notin> set (trace st)"
    using c unfolding consistent_def by blast
  with d show ?thesis by (simp add: b)
qed

lemmas run_defs = build_def resolve_def get_providers_def add_provider_def truthy_str_def
  provides_volume_def init_run_def dependency_sort_def volume_providers_def
  List.map_filter_def ancestry_def parent_edges_def node_count_def final_order_def
  try_pull_def fire_def profile_containers_def in_profile_def

lemma online_chain_run:
  "build online chain_catalog ''build.log'' [Named (plain ''c'')] True True True () =
     (Returned,
      \<lparr>world = (),
       trace = [PullAttempt (plain ''b'') True, HookFired PRE_GROUP_BUILD [plain ''c''],
                BuildAttempt (plain ''c'') True, HookFired POST_GROUP_BUILD [plain ''c'']],
       containers_to_pull = [], containers_to_build = [plain ''c''],
       pulled_containers = {plain ''b''}, failed_pulls = {},
       ancestors_to_build = [plain ''c'']\<rparr>)"
  by (simp add: run_defs online_def offline_def chain_catalog_def plain_def numeral_3_eq_3)

theorem pull_outcomes_disjoint_witness:
  "PullAttempt (plain ''b'') True
     \<in> set (trace (snd (build online chain_catalog ''build.log'' [Named (plain ''c'')]
                         True True True ())))
   \<and> PullAttempt (plain ''b'') False
     \<notin> set (trace (snd (build online chain_catalog ''build.log'' [Named (plain ''c'')]
                         True True True ())))"
proof -
  have "PullAttempt (plain ''b'') True
     \<in> set (trace (snd (build online chain_catalog ''build.log'' [Named (plain ''c'')]
                         True True True ())))"
    by (simp add: online_chain_run)
  with pull_outcomes_disjoint [of online chain_catalog "''build.log''"
      "[Named (plain ''c'')]" True True True "()"]
  show ?thesis by blast
qed

lemma resolve_trace_pulls:
  "e \<in> set (trace (state_of (resolve env app containers recursive w))) \<Longrightarrow>
     \<exists>c ok. e = PullAttempt c ok"
  using resolve_consistent_explicit [of app containers env recursive w]
  by (simp add: consistent_def)

text \<open>
  Claim C6. When a build of the queue fails, the command prints the header, the last
  15 lines of the log file (all of them if there are fewer), each with the colour
  sequences removed, then the path of the log, and exits with code 1. The trace shows
  the rest: the builds before the failed one stay as they were, no build is attempted
  after it, and \<^verbatim>\<open>POST_GROUP_BUILD\<close> is not fired.
\<close>

theorem build_failure_aborts:
  assumes run: "build env app lf containers cache recursive verbose w = (out, st)"
    and failed: "BuildAttempt c False \<in> set (trace st)"
  shows "out = Exit 1 \<and>
    (\<exists>pulls done remaining.
       (\<forall>e \<in> set pulls. \<exists>x ok. e = PullAttempt x ok) \<and>
       ancestors_to_build st = done @ c # remaining \<and>
       trace st =
         pulls @ HookFired PRE_GROUP_BUILD (ancestors_to_build st)
         # map (\<lambda>d. BuildAttempt d True) done
         @ BuildAttempt c False
         # Echo (RED env ''Build failed! Last 15 lines of log:'')
         # map (\<lambda>line. Echo (''  '' @ rstrip (remove_ansi env line)))
               (drop (length (read_lines env (world st) lf) - 15)
                     (read_lines env (world st) lf))
         @ [EchoErr (''See full build log at '' @ format_filename env lf)])"
proof -
  let ?R = "resolve env app containers recursive w"
  have pulls: "\<And>e. e \<in> set (trace (state_of ?R)) \<Longrightarrow> \<exists>x ok. e = PullAttempt x ok"
    by (rule resolve_trace_pulls)
  from build_shape [OF run] show ?thesis
  proof (elim disjE exE conjE, goal_cases)
    case (1 e)
    then have "state_of ?R = st" by (simp add: state_of_def)
    with pulls [of "BuildAttempt c False"] failed show ?case by auto
  next
    case (2 st0 rest e)
    then have "state_of ?R = st0" by (simp add: state_of_def)
    with pulls [of "BuildAttempt c False"] failed 2 show ?case by auto
  next
    case (3 st0 rest "done" c' remaining)
    then have s0: "state_of ?R = st0" by (simp add: state_of_def)
    have "BuildAttempt c False \<notin> set (trace st0)"
      using pulls [of "BuildAttempt c False"] s0 by auto
    moreover have "BuildAttempt c False \<notin> set (failure_report env lf (world st))"
      using failure_report_events [of "BuildAttempt c False" env lf "world st"] by auto
    ultimately have c: "c' = c" using failed 3 by auto
    have "(\<forall>e \<in> set (trace st0). \<exists>x ok. e = PullAttempt x ok) \<and>
       ancestors_to_build st = done @ c # remaining \<and>
       trace st =
         trace st0 @ HookFired PRE_GROUP_BUILD (ancestors_to_build st)
         # map (\<lambda>d. BuildAttempt d True) done
         @ BuildAttempt c False
         # Echo (RED env ''Build failed! Last 15 lines of log:'')
         # map (\<lambda>line. Echo (''  '' @ rstrip (remove_ansi env line)))
               (drop (length (read_lines env (world st) lf) - 15)
                     (read_lines env (world st) lf))
         @ [EchoErr (''See full build log at '' @ format_filename env lf)]"
      using 3 c pulls s0 by (simp add: failure_report_def log_tail_last15)
    then show ?case using 3 by blast
  next
    case (4 st0 rest)
    then have "state_of ?R = st0" by (simp add: state_of_def)
    with pulls [of "BuildAttempt c False"] failed 4 show ?case by auto
  next
    case (5 st0 rest e)
    then have "state_of ?R = st0" by (simp add: state_of_def)
    with pulls [of "BuildAttempt c False"] failed 5 show ?case by auto
  qed
qed

lemma b_fails_run:
  "build b_fails chain_catalog ''build.log'' [Named (plain ''c'')] True True True () =
     (Exit 1,
      \<lparr>world = (),
       trace = [PullAttempt (plain ''b'') False, PullAttempt (plain ''a'') False,
                HookFired PRE_GROUP_BUILD [plain ''a'', plain ''b'', plain ''c''],
                BuildAttempt (plain ''a'') True, BuildAttempt (plain ''b'') False,
                Echo ''Build failed! Last 15 lines of log:'',
                Echo ''  Step 1/2 : FROM a'', Echo ''  boom'',
                EchoErr ''See full build log at build.log''],
       containers_to_pull = [], containers_to_build = [plain ''c''],
       pulled_containers = {}, failed_pulls = {plain ''a'', plain ''b''},
       ancestors_to_build = [plain ''a'', plain ''b'', plain ''c'']\<rparr>)"
  by (simp add: run_defs b_fails_def offline_def chain_catalog_def plain_def numeral_3_eq_3
      failure_report_def log_tail_def tail_step_def rstrip_def isspace_def insert_commute)

theorem build_failure_aborts_witness:
  "fst (build b_fails chain_catalog ''build.log'' [Named (plain ''c'')] True True True ())
     = Exit 1
   \<and> BuildAttempt (plain ''c'') True
       \<notin> set (trace (snd (build b_fails chain_catalog ''build.log'' [Named (plain ''c'')]
                            True True True ())))"
proof -
  have "BuildAttempt (plain ''b'') False
          \<in> set (trace (snd (build b_fails chain_catalog ''build.log'' [Named (plain ''c'')]
                               True True True ())))"
    by (simp add: b_fails_run)
  from build_failure_aborts [OF prod.collapse [symmetric] this]
  have "fst (build b_fails chain_catalog ''build.log'' [Named (plain ''c'')] True True True ())
          = Exit 1"
    by blast
  moreover have "BuildAttempt (plain ''c'') True
       \<notin> set (trace (snd (build b_fails chain_catalog ''build.log'' [Named (plain ''c'')]
                            True True True ())))"
    unfolding b_fails_run by (simp add: plain_def)
  ultimately show ?thesis by blast
qed

lemma try_pull_ok:
  "fst (pull_image_version env (world st) (image_name c) (image_tag c)) \<Longrightarrow>
   try_pull env c st =
     (True, st\<lparr>world := snd (pull_image_version env (world st) (image_name c) (image_tag c)),
                trace := trace st @ [PullAttempt c True]\<rparr>)"
  by (cases "pull_image_version env (world st) (image_name c) (image_tag c)")
     (simp add: try_pull_def)

lemma pull_phase_trace:
  "\<exists>new. trace (pull_phase env cs st) = trace st @ new
         \<and> (\<forall>c \<in> set cs. \<exists>ok. PullAttempt c ok \<in> set new)"
proof (induction cs arbitrary: st)
  case Nil
  then show ?case by simp
next
  case (Cons c cs)
  obtain ok st' where tp: "try_pull env c st = (ok, st')" by (cases "try_pull env c st")
  from try_pull_effect [OF tp] obtain w' where
    st': "st' = st\<lparr>world := w', trace := trace st @ [PullAttempt c ok]\<rparr>" by blast
  define s where "s = (if ok then st'\<lparr>pulled_containers := insert c (pulled_containers st')\<rparr>
      else st'\<lparr>failed_pulls := insert c (failed_pulls st'),
               containers_to_build := containers_to_build st' @ [c]\<rparr>)"
  have step: "pull_phase env (c # cs) st = pull_phase env cs s"
    using tp by (cases ok) (simp_all add: s_def)
  have ts: "trace s = trace st @ [PullAttempt c ok]" by (simp add: s_def st')
  from Cons.IH [of s] obtain new where
    new: "trace (pull_phase env cs s) = trace s @ new"
         "\<forall>x \<in> set cs. \<exists>ok. PullAttempt x ok \<in> set new"
    by blast
  have "trace (pull_phase env (c # cs) st) = trace st @ (PullAttempt c ok # new)"
    using step new ts by simp
  moreover have "\<forall>x \<in> set (c # cs). \<exists>ok'. PullAttempt x ok' \<in> set (PullAttempt c ok # new)"
    using new(2) by auto
  ultimately show ?case by blast
qed

lemma walk_ancestry_trace:
  "\<exists>new. trace (walk_ancestry env as st) = trace st @ new"
proof (induction as arbitrary: st)
  case Nil
  then show ?case by simp
next
  case (Cons a as)
  obtain ok st' where tp: "try_pull env a st = (ok, st')" by (cases "try_pull env a st")
  from try_pull_effect [OF tp] obtain w' where
    st': "st' = st\<lparr>world := w', trace := trace st @ [PullAttempt a ok]\<rparr>" by blast
  show ?case
  proof (cases "a \<in> failed_pulls st")
    case True
    then show ?thesis
      using Cons.IH [of "st\<lparr>failed_pulls := insert a (failed_pulls st),
                             ancestors_to_build := a # ancestors_to_build st\<rparr>"]
      by simp
  next
    case nf: False
    show ?thesis
    proof (cases "a \<in> pulled_containers st")
      case True
      then show ?thesis using nf by simp
    next
      case np: False
      show ?thesis
      proof (cases ok)
        case True
        then show ?thesis using nf np tp by (simp add: st')
      next
        case False
        from Cons.IH [of "st'\<lparr>failed_pulls := insert a (failed_pulls st'),
                      ancestors_to_build := a # ancestors_to_build st'\<rparr>"]
        obtain new where "trace (walk_ancestry env as
             (st'\<lparr>failed_pulls := insert a (failed_pulls st'),
                      ancestors_to_build := a # ancestors_to_build st'\<rparr>))
            = trace st @ PullAttempt a False # new"
          using False by (auto simp: st')
        then show ?thesis using nf np tp False by simp
      qed
    qed
  qed
qed

lemma resolve_ancestors_trace:
  "\<exists>new. trace (state_of (resolve_ancestors env app recursive cs st)) = trace st @ new"
proof (induction cs arbitrary: st)
  case Nil
  then show ?case by (simp add: state_of_def)
next
  case (Cons c cs)
  let ?s1 = "st\<lparr>ancestors_to_build := ancestors_to_build st @ [c]\<rparr>"
  show ?case
  proof (cases recursive)
    case False
    then show ?thesis using Cons.IH [of ?s1] by (simp add: Let_def)
  next
    case True
    show ?thesis
    proof (cases "ancestry app (containers_to_build st)")
      case (Inl e)
      then show ?thesis using True by (simp add: Let_def state_of_def)
    next
      case (Inr anc)
      from walk_ancestry_trace [of env "rev anc" ?s1] obtain n1 where
        n1: "trace (walk_ancestry env (rev anc) ?s1) = trace st @ n1" by auto
      from Cons.IH [of "walk_ancestry env (rev anc) ?s1"] obtain n2 where
        "trace (state_of (resolve_ancestors env app recursive cs
            (walk_ancestry env (rev anc) ?s1))) = trace st @ n1 @ n2"
        using n1 by auto
      then show ?thesis using True Inr by (simp add: Let_def)
    qed
  qed
qed

lemma resolve_pulls_profile:
  assumes "resolve env app containers recursive w = Inr st"
    and "c \<in> set (profile_targets app containers)"
  shows "\<exists>ok. PullAttempt c ok \<in> set (trace st)"
proof -
  let ?st0 = "expand app (get_providers app) containers (init_run w)"
  from assms(1) obtain ordered where
    srt: "dependency_sort (node_count app) (containers_to_pull ?st0) (dependencies app)
            = Inr ordered"
    by (auto simp: resolve_def Let_def split: sum.splits)
  let ?st1 = "pull_phase env ordered (?st0\<lparr>containers_to_pull := ordered\<rparr>)"
  from assms(1) srt obtain st2 where
    ra: "resolve_ancestors env app recursive (containers_to_build ?st1) ?st1 = Inr st2"
    and fo: "final_order app st2 = Inr st"
    by (auto simp: resolve_def Let_def split: sum.splits)
  have "containers_to_pull ?st0 = profile_targets app containers"
    using expand_lists [of app containers "init_run w"] by (simp add: init_run_def)
  then have mem: "c \<in> set ordered"
    using dependency_sort_superset [OF srt] assms(2) by auto
  from pull_phase_trace [of env ordered "?st0\<lparr>containers_to_pull := ordered\<rparr>"]
  obtain new1 where n1: "trace ?st1 = trace (?st0\<lparr>containers_to_pull := ordered\<rparr>) @ new1"
    "\<forall>x \<in> set ordered. \<exists>ok. PullAttempt x ok \<in> set new1"
    by blast
  from n1(2) mem obtain ok where "PullAttempt c ok \<in> set new1" by blast
  then have ok: "PullAttempt c ok \<in> set (trace ?st1)" unfolding n1(1) by simp
  from resolve_ancestors_trace [of env app recursive "containers_to_build ?st1" ?st1] ra
  obtain new where "trace st2 = trace ?st1 @ new" by (auto simp: state_of_def)
  moreover have "trace st = trace st2"
    using fo by (auto simp: final_order_def split: sum.splits)
  ultimately show ?thesis using ok by auto
qed

text \<open>
  Claim C4, as the code has it. All pull attempts of a run come before the first build.
  A container is built only if it was named on the command line (or provides a volume
  of a container named there) or if a pull of that same container was tried before
  and failed; and for a container that the profile sentinel expands to, a pull was
  attempted before it is built. A container named on the command line is queued
  without a pull of its own, as the counterexample shows.
\<close>

theorem pull_before_build:
  assumes "build env app lf containers cache recursive verbose w = (out, st)"
  shows "\<exists>pulls rest. trace st = pulls @ rest
      \<and> (\<forall>e \<in> set pulls. \<exists>x ok. e = PullAttempt x ok)
      \<and> (\<forall>e \<in> set rest. \<forall>x ok. e \<noteq> PullAttempt x ok)
      \<and> (\<forall>c ok. BuildAttempt c ok \<in> set rest \<longrightarrow>
            (c \<in> set (explicit_targets app containers) \<or> PullAttempt c False \<in> set pulls)
          \<and> (c \<in> set (profile_targets app containers)
               \<longrightarrow> (\<exists>ok'. PullAttempt c ok' \<in> set pulls)))"
proof -
  let ?R = "resolve env app containers recursive w"
  from build_after_resolve [OF assms] obtain rest where
    r: "trace st = trace (state_of ?R) @ rest"
       "\<forall>e \<in> set rest. \<forall>c ok. e \<noteq> PullAttempt c ok"
       "\<forall>c ok. BuildAttempt c ok \<in> set rest \<longrightarrow>
                 (\<exists>st0. ?R = Inr st0 \<and> c \<in> set (ancestors_to_build st0))"
    by blast
  have c: "consistent (explicit_targets app containers) (state_of ?R)"
    by (rule resolve_consistent_explicit)
  have p: "\<forall>e \<in> set (trace (state_of ?R)). \<exists>x ok. e = PullAttempt x ok"
    using c by (simp add: consistent_def)
  have b: "(c \<in> set (explicit_targets app containers)
              \<or> PullAttempt c False \<in> set (trace (state_of ?R)))
          \<and> (c \<in> set (profile_targets app containers)
               \<longrightarrow> (\<exists>ok'. PullAttempt c ok' \<in> set (trace (state_of ?R))))"
    if "BuildAttempt c ok \<in> set rest" for c ok
  proof -
    from r(3) that obtain st0 where s0: "?R = Inr st0" "c \<in> set (ancestors_to_build st0)"
      by blast
    then have so: "state_of ?R = st0" by (simp add: state_of_def)
    have "c \<in> set (explicit_targets app containers)
              \<or> PullAttempt c False \<in> set (trace (state_of ?R))"
      using c s0(2) unfolding so consistent_def by blast
    moreover have "c \<in> set (profile_targets app containers)
               \<longrightarrow> (\<exists>ok'. PullAttempt c ok' \<in> set (trace (state_of ?R)))"
      using resolve_pulls_profile [OF s0(1)] so by simp
    ultimately show ?thesis by blast
  qed
  show ?thesis
    apply (rule exI [of _ "trace (state_of ?R)"])
    apply (rule exI [of _ rest])
    using r(1,2) p b by blast
qed

theorem pull_before_build_counterexample:
  "trace (snd (build offline chain_catalog ''build.log'' [Named (plain ''a'')]
                 True True True ()))
     = [HookFired PRE_GROUP_BUILD [plain ''a''], BuildAttempt (plain ''a'') True,
        HookFired POST_GROUP_BUILD [plain ''a'']]"
  by (simp add: run_defs offline_def chain_catalog_def plain_def numeral_3_eq_3)


theorem pull_before_build_witness:
  "plain ''a'' \<notin> set (explicit_targets chain_catalog [Named (plain ''c'')])
   \<and> BuildAttempt (plain ''a'') True
       \<in> set (trace (snd (build b_fails chain_catalog ''build.log'' [Named (plain ''c'')]
                            True True True ())))
   \<and> PullAttempt (plain ''a'') False
       \<in> set (trace (snd (build b_fails chain_catalog ''build.log'' [Named (plain ''c'')]
                            True True True ())))"
proof -
  let ?run = "build b_fails chain_catalog ''build.log'' [Named (plain ''c'')] True True True ()"
  have ex: "plain ''a'' \<notin> set (explicit_targets chain_catalog [Named (plain ''c'')])"
    by (simp add: explicit_targets_def chain_catalog_def plain_def run_defs)
  have bt: "BuildAttempt (plain ''a'') True \<in> set (trace (snd ?run))"
    by (simp add: b_fails_run)
  from pull_before_build [OF prod.collapse [symmetric], of b_fails chain_catalog "''build.log''"
      "[Named (plain ''c'')]" True True True "()"]
  obtain pulls rest where
    p: "trace (snd ?run) = pulls @ rest"
       "\<forall>e \<in> set pulls. \<exists>x ok. e = PullAttempt x ok"
       "\<forall>c ok. BuildAttempt c ok \<in> set rest \<longrightarrow>
            (c \<in> set (explicit_targets chain_catalog [Named (plain ''c'')])
               \<or> PullAttempt c False \<in> set pulls)
          \<and> (c \<in> set (profile_targets chain_catalog [Named (plain ''c'')])
               \<longrightarrow> (\<exists>ok'. PullAttempt c ok' \<in> set pulls))"
    by blast
  have "BuildAttempt (plain ''a'') True \<notin> set pulls" using p(2) by blast
  with bt p(1) have "BuildAttempt (plain ''a'') True \<in> set rest" by simp
  with p(3) ex have "PullAttempt (plain ''a'') False \<in> set pulls" by blast
  with p(1) have "PullAttempt (plain ''a'') False \<in> set (trace (snd ?run))" by simp
  with ex bt show ?thesis by blast
qed

text \<open>
  Claim C3, as the code has it. In the chain \<open>A \<rightarrow> B \<rightarrow> C\<close>, when the pull of \<open>B\<close>
  succeeds during the ancestor resolution of a request for \<open>C\<close>, the final build order
  is \<open>[C]\<close>. In general the final step keeps, of the sorted list, only what was queued:
  every container of the final build list was named on the command line (or provides
  a volume of a container named there), or its pull failed in this run and never
  succeeded. A container named on the command line stays in the list even when its
  pull succeeded, as the counterexample shows.
\<close>

theorem final_order_keeps_queued:
  "(A \<noteq> B \<and> A \<noteq> C \<and> B \<noteq> C
      \<and> A \<in> set (items app) \<and> B \<in> set (items app) \<and> C \<in> set (items app)
      \<and> build_parent app C = Some B \<and> build_parent app B = Some A
      \<and> build_parent app A = None
      \<and> volume_providers (get_providers app) C = []
      \<and> (\<forall>s. fst (pull_image_version env s (image_name B) (image_tag B)))
     \<longrightarrow> (\<exists>st. resolve env app [Named C] True w = Inr st \<and> ancestors_to_build st = [C]
               \<and> B \<in> pulled_containers st))
   \<and> (\<forall>st c. resolve env app containers recursive w = Inr st
          \<longrightarrow> c \<in> set (ancestors_to_build st)
          \<longrightarrow> c \<in> set (explicit_targets app containers)
              \<or> (c \<in> failed_pulls st \<and> c \<notin> pulled_containers st))"
proof (intro conjI impI allI)
  assume h: "A \<noteq> B \<and> A \<noteq> C \<and> B \<noteq> C
      \<and> A \<in> set (items app) \<and> B \<in> set (items app) \<and> C \<in> set (items app)
      \<and> build_parent app C = Some B \<and> build_parent app B = Some A
      \<and> build_parent app A = None
      \<and> volume_providers (get_providers app) C = []
      \<and> (\<forall>s. fst (pull_image_version env s (image_name B) (image_tag B)))"
  then have dist: "A \<noteq> B" "A \<noteq> C" "B \<noteq> C"
    and mem: "A \<in> set (items app)" "B \<in> set (items app)" "C \<in> set (items app)"
    and par: "build_parent app C = Some B" "build_parent app B = Some A"
             "build_parent app A = None"
    and vols: "volume_providers (get_providers app) C = []"
    and ok: "\<forall>s. fst (pull_image_version env s (image_name B) (image_tag B))"
    by simp_all
  obtain m where n: "node_count app = Suc (Suc (Suc m))"
    using three_members_length [OF dist mem] by (auto simp: node_count_def)
  have srt: "dependency_sort (node_count app) [C] (parent_edges app) = Inr [A, B, C]"
    using dist par by (simp add: n dependency_sort_def parent_edges_def)
  have srt0: "dependency_sort (node_count app) [] (dependencies app) = Inr []"
    by (simp add: dependency_sort_def)
  show "\<exists>st. resolve env app [Named C] True w = Inr st \<and> ancestors_to_build st = [C]
               \<and> B \<in> pulled_containers st"
    using dist ok
    by (simp add: resolve_def vols init_run_def srt0 ancestry_def srt try_pull_ok
        final_order_def)
next
  fix st c
  assume r: "resolve env app containers recursive w = Inr st"
    and c: "c \<in> set (ancestors_to_build st)"
  have "consistent (explicit_targets app containers) st"
    using resolve_consistent_explicit [of app containers env recursive w] r
    by (simp add: state_of_def)
  then show "c \<in> set (explicit_targets app containers)
              \<or> (c \<in> failed_pulls st \<and> c \<notin> pulled_containers st)"
    using c unfolding consistent_def by blast
qed

theorem final_order_keeps_queued_witness:
  "(\<exists>st. resolve online chain_catalog [Named (plain ''c'')] True () = Inr st
         \<and> ancestors_to_build st = [plain ''c''] \<and> plain ''b'' \<in> pulled_containers st)"
proof -
  have "plain ''a'' \<noteq> plain ''b'' \<and> plain ''a'' \<noteq> plain ''c'' \<and> plain ''b'' \<noteq> plain ''c''
      \<and> plain ''a'' \<in> set (items chain_catalog) \<and> plain ''b'' \<in> set (items chain_catalog)
      \<and> plain ''c'' \<in> set (items chain_catalog)
      \<and> build_parent chain_catalog (plain ''c'') = Some (plain ''b'')
      \<and> build_parent chain_catalog (plain ''b'') = Some (plain ''a'')
      \<and> build_parent chain_catalog (plain ''a'') = None
      \<and> volume_providers (get_providers chain_catalog) (plain ''c'') = []
      \<and> (\<forall>s. fst (pull_image_version online s (image_name (plain ''b''))
                     (image_tag (plain ''b''))))"
    by (simp add: chain_catalog_def plain_def online_def offline_def volume_providers_def
        List.map_filter_def)
  with final_order_keeps_queued [of "plain ''a''" "plain ''b''" "plain ''c''" chain_catalog
      online "()" "[]" True]
  show ?thesis by blast
qed

theorem final_order_keeps_queued_counterexample:
  "ancestors_to_build
     (state_of (resolve online chain_catalog [Named (plain ''b''), Named (plain ''c'')] True ()))
     = [plain ''b'', plain ''c'']
   \<and> plain ''b''
     \<in> pulled_containers
         (state_of (resolve online chain_catalog [Named (plain ''b''), Named (plain ''c'')]
                      True ()))
   \<and> trace (state_of (resolve online chain_catalog [Named (plain ''b''), Named (plain ''c'')]
                         True ()))
     = [PullAttempt (plain ''b'') True]"
  by (simp add: run_defs state_of_def online_def offline_def chain_catalog_def plain_def
      numeral_3_eq_3)

lemma set_map_filter:
  "set (List.map_filter P xs) = {p. \<exists>v \<in> set xs. P v = Some p}"
  by (induction xs) (auto split: option.splits)

lemma set_volume_providers:
  "set (volume_providers P c) = {p. \<exists>v \<in> snd ` set (named_volumes c). P v = Some p}"
  by (simp add: volume_providers_def set_map_filter)

lemma set_profile_containers:
  "set (profile_containers app P) =
     {c \<in> set (items app). in_profile app c \<or> system c}
     \<union> {p. \<exists>c \<in> set (items app). (in_profile app c \<or> system c)
               \<and> (\<exists>v \<in> snd ` set (named_volumes c). P v = Some p)}"
  unfolding profile_containers_def
  by (auto simp: set_volume_providers split: if_splits)

lemma set_profile_targets:
  "Profile \<in> set rs \<Longrightarrow>
     set (profile_targets app rs) = set (profile_containers app (get_providers app))"
  by (auto simp: profile_targets_def split: request.splits)

text \<open>
  Claim C5, as the code has it. For a request with the profile sentinel, the list
  \<^verbatim>\<open>containers_to_pull\<close> after the expansion holds exactly the containers of the
  catalog that are in the profile or are system containers, and the providers of the
  volumes they mount (a provider once for each mount that names its volume); the
  list after \<^verbatim>\<open>dependency_sort\<close> over the runtime dependencies, which the pull phase
  walks, has no container twice, holds all of these and is closed under runtime
  dependencies.
\<close>

theorem profile_expansion:
  assumes "Profile \<in> set containers"
  shows "set (containers_to_pull (expand app (get_providers app) containers (init_run w))) =
           {c \<in> set (items app). in_profile app c \<or> system c}
           \<union> {p. \<exists>c \<in> set (items app). (in_profile app c \<or> system c)
                     \<and> (\<exists>v \<in> snd ` set (named_volumes c). get_providers app v = Some p)}
       \<and> (\<forall>ordered.
             dependency_sort (node_count app)
               (containers_to_pull (expand app (get_providers app) containers (init_run w)))
               (dependencies app) = Inr ordered
             \<longrightarrow> distinct ordered
                 \<and> set (containers_to_pull
                          (expand app (get_providers app) containers (init_run w)))
                     \<subseteq> set ordered
                 \<and> (\<forall>c \<in> set ordered. set (dependencies app c) \<subseteq> set ordered))"
proof -
  have e: "containers_to_pull (expand app (get_providers app) containers (init_run w))
             = profile_targets app containers"
    using expand_lists [of app containers "init_run w"] by (simp add: init_run_def)
  have s: "set (profile_targets app containers) =
           {c \<in> set (items app). in_profile app c \<or> system c}
           \<union> {p. \<exists>c \<in> set (items app). (in_profile app c \<or> system c)
                     \<and> (\<exists>v \<in> snd ` set (named_volumes c). get_providers app v = Some p)}"
    by (simp only: set_profile_targets [OF assms] set_profile_containers)
  have d: "distinct ordered \<and> set (profile_targets app containers) \<subseteq> set ordered
             \<and> (\<forall>c \<in> set ordered. set (dependencies app c) \<subseteq> set ordered)"
    if "dependency_sort (node_count app) (profile_targets app containers) (dependencies app)
          = Inr ordered" for ordered
    using dependency_sort_distinct [OF that] dependency_sort_superset [OF that]
      dependency_sort_closed [OF that]
    by blast
  show ?thesis unfolding e using s d by blast
qed

lemma profile_catalog_expansion:
  "containers_to_pull (expand profile_catalog (get_providers profile_catalog) [Profile]
                         (init_run ()))
     = [web, assets_provider, worker, assets_provider]"
  by (simp add: profile_catalog_def profile_containers_def in_profile_def web_def worker_def
      assets_provider_def plain_def init_run_def get_providers_def add_provider_def
      truthy_str_def provides_volume_def volume_providers_def List.map_filter_def)

lemma profile_catalog_sorted:
  "dependency_sort (node_count profile_catalog)
     [web, assets_provider, worker, assets_provider] (dependencies profile_catalog)
     = Inr [plain ''db'', web, assets_provider, worker]"
  by (simp add: profile_catalog_def dependency_sort_def node_count_def web_def worker_def
      assets_provider_def plain_def numeral_eq_Suc)

theorem profile_expansion_counterexample:
  "containers_to_pull (expand profile_catalog (get_providers profile_catalog) [Profile]
                         (init_run ()))
     = [web, assets_provider, worker, assets_provider]
   \<and> dependency_sort (node_count profile_catalog)
       (containers_to_pull (expand profile_catalog (get_providers profile_catalog) [Profile]
                              (init_run ())))
       (dependencies profile_catalog)
     = Inr [plain ''db'', web, assets_provider, worker]
   \<and> \<not> in_profile profile_catalog (plain ''db'') \<and> \<not> system (plain ''db'')
   \<and> provides_volume (plain ''db'') = None"
  unfolding profile_catalog_expansion profile_catalog_sorted
  by (simp add: in_profile_def profile_catalog_def plain_def provides_volume_def web_def
      worker_def)

theorem profile_expansion_witness:
  "distinct [plain ''db'', web, assets_provider, worker]
   \<and> set [web, assets_provider, worker, assets_provider]
       \<subseteq> set [plain ''db'', web, assets_provider, worker]"
proof -
  have p: "Profile \<in> set [Profile]" by simp
  from profile_expansion [OF p, of profile_catalog "()"]
  show ?thesis
    unfolding profile_catalog_expansion using profile_catalog_sorted by blast
qed

text \<open>
  Claim C1. With the recursive flag, the walk for a container queued to build should
  visit that container's own build ancestors and nothing else. The ancestry is
  computed from the whole list \<^verbatim>\<open>containers_to_build\<close>, whatever the container. For two
  containers \<open>x\<close> and \<open>y\<close> without build parents, both requested, it is \<open>[x]\<close>: the walk
  for \<open>x\<close> visits \<open>x\<close> itself and the walk for \<open>y\<close> visits \<open>x\<close>, and a pull of \<open>x\<close> is
  attempted although neither container has an ancestor. In the chain
  \<open>a \<rightarrow> b \<rightarrow> c\<close> with \<open>b\<close> and \<open>c\<close> requested it is \<open>[a, b]\<close> for both: the walk for \<open>b\<close>
  starts at \<open>b\<close> itself, and when the image of \<open>b\<close> can be pulled it ends there, so
  that the parent \<open>a\<close> of \<open>b\<close> is neither pulled nor queued although \<open>b\<close> is built.
\<close>

theorem ancestry_not_own_chain:
  "build_parent roots_catalog (plain ''x'') = None \<and>
   build_parent roots_catalog (plain ''y'') = None \<and>
   ancestry roots_catalog [plain ''x'', plain ''y''] = Inr [plain ''x''] \<and>
   trace (state_of (resolve offline roots_catalog [Named (plain ''x''), Named (plain ''y'')]
                      True ()))
     = [PullAttempt (plain ''x'') False] \<and>
   ancestry chain_catalog [plain ''b'', plain ''c''] = Inr [plain ''a'', plain ''b''] \<and>
   trace (state_of (resolve b_available chain_catalog [Named (plain ''b''), Named (plain ''c'')]
                      True ()))
     = [PullAttempt (plain ''b'') True] \<and>
   ancestors_to_build
     (state_of (resolve b_available chain_catalog [Named (plain ''b''), Named (plain ''c'')]
                  True ()))
     = [plain ''b'', plain ''c'']"
  by (simp add: run_defs state_of_def roots_catalog_def chain_catalog_def plain_def
      b_available_def offline_def numeral_2_eq_2 numeral_3_eq_3)

section \<open>Properties of the hooks\<close>

text \<open>The steps of the hook \<^verbatim>\<open>POST_BUILD\<close> leave the image ids alone; only the
  re-creation of the volume touches the labels.\<close>

lemma remove_all_frame:
  "image_id (remove_all cl is host) = image_id host \<and>
   volume_labels (remove_all cl is host) = volume_labels host"
  by (induction "is" arbitrary: host) simp_all

lemma stop_instances_frame:
  "stop_instances cl pv host = Inr h \<Longrightarrow>
     image_id h = image_id host \<and> volume_labels h = volume_labels host"
  by (auto simp: stop_instances_def Let_def remove_all_frame split: if_splits prod.splits option.splits)

lemma collect_garbage_frame:
  "image_id (collect_garbage cl host) = image_id host \<and>
   volume_labels (collect_garbage cl host) = volume_labels host"
  by (simp add: collect_garbage_def)

lemma extract_volume_frame:
  "image_id (extract_volume cl c pv host) = image_id host \<and>
   volume_labels (extract_volume cl c pv host) = volume_labels host"
  by (simp add: extract_volume_def Let_def split: prod.splits)

lemma recreate_volume_labels:
  "image_id (recreate_volume pv i host) = image_id host \<and>
   volume_labels (recreate_volume pv i host) pv = Some (Some [(''build_id'', i)])"
  by (simp add: recreate_volume_def Let_def split: option.splits)

lemma post_build_labels:
  assumes "post_build cl host c = Inr h1" and "truthy_str (provides_volume c)"
  shows "\<exists>i labels. image_id h1 (image_name c) = Some i
           \<and> volume_labels h1 (the (provides_volume c)) = Some (Some labels)
           \<and> map_of labels ''build_id'' = Some i"
proof -
  from assms(1) obtain i where i: "image_id host (image_name c) = Some i"
    by (auto simp: post_build_def split: option.splits)
  show ?thesis
  proof (cases "should_extract_volume host c i")
    case True
    with assms(1) i obtain h0 where h0: "stop_instances cl (the (provides_volume c)) host = Inr h0"
      and h1: "h1 = extract_volume cl c (the (provides_volume c))
                 (recreate_volume (the (provides_volume c)) i (collect_garbage cl h0))"
      by (auto simp: post_build_def Let_def split: sum.splits)
    have "image_id h1 = image_id host"
      using stop_instances_frame [OF h0]
      by (simp add: h1 extract_volume_frame recreate_volume_labels collect_garbage_frame)
    moreover have "volume_labels h1 (the (provides_volume c)) = Some (Some [(''build_id'', i)])"
      by (simp add: h1 extract_volume_frame recreate_volume_labels)
    ultimately show ?thesis using i by simp
  next
    case False
    with assms(1) i have "h1 = host" by (simp add: post_build_def)
    with False assms(2) i show ?thesis
      by (auto simp: should_extract_volume_def split: option.splits)
  qed
qed

text \<open>
  Claim C7. The hook \<^verbatim>\<open>POST_BUILD\<close> is idempotent: run a second time on the host the
  first run left, it changes nothing (no instance stopped, no volume removed or
  created, no container run), and for a volume provider the label \<^verbatim>\<open>build_id\<close> of the
  volume then equals the image id.
\<close>

theorem post_build_idempotent:
  assumes "post_build cl host c = Inr h1"
  shows "post_build cl h1 c = Inr h1 \<and>
         (truthy_str (provides_volume c) \<longrightarrow>
            (\<exists>i labels. image_id h1 (image_name c) = Some i
               \<and> volume_labels h1 (the (provides_volume c)) = Some (Some labels)
               \<and> map_of labels ''build_id'' = Some i))"
proof (cases "truthy_str (provides_volume c)")
  case True
  from post_build_labels [OF assms True] obtain i labels where
    l: "image_id h1 (image_name c) = Some i"
       "volume_labels h1 (the (provides_volume c)) = Some (Some labels)"
       "map_of labels ''build_id'' = Some i"
    by blast
  then have "\<not> should_extract_volume h1 c i"
    by (simp add: should_extract_volume_def)
  with l have "post_build cl h1 c = Inr h1" by (simp add: post_build_def)
  with l True show ?thesis by blast
next
  case False
  from assms obtain i where i: "image_id host (image_name c) = Some i"
    by (auto simp: post_build_def split: option.splits)
  with assms False have "h1 = host" by (simp add: post_build_def should_extract_volume_def)
  with i False show ?thesis by (simp add: post_build_def should_extract_volume_def)
qed

theorem post_build_idempotent_witness:
  "\<exists>h1. post_build idle_client built_host assets_provider = Inr h1
      \<and> calls h1 = [GcContainers, CreateVolume ''assets'' [(''build_id'', ''sha256:1'')],
                     CreateContainer ''assets-builder'' ''assets'', Start ''run-1'',
                     Wait ''run-1'', RemoveContainer ''run-1'']
      \<and> post_build idle_client h1 assets_provider = Inr h1"
proof -
  have first: "post_build idle_client built_host assets_provider =
     Inr (built_host\<lparr>volume_labels := [''assets'' \<mapsto> Some [(''build_id'', ''sha256:1'')]],
           calls := [GcContainers, CreateVolume ''assets'' [(''build_id'', ''sha256:1'')],
                     CreateContainer ''assets-builder'' ''assets'', Start ''run-1'',
                     Wait ''run-1'', RemoveContainer ''run-1'']\<rparr>)"
    by (simp add: post_build_def built_host_def assets_provider_def plain_def
        should_extract_volume_def truthy_str_def provides_volume_def stop_instances_def
        idle_client_def collect_garbage_def recreate_volume_def extract_volume_def Let_def)
  from post_build_idempotent [OF first] show ?thesis using first by simp
qed

text \<open>
  Claim C9. The hook \<^verbatim>\<open>PRE_START\<close> raises \<^verbatim>\<open>ValueError\<close> whenever the container of the
  instance declares the volume it provides (a volume name, so not the empty string)
  under \<^verbatim>\<open>provides-volume\<close> in its \<^verbatim>\<open>extra_data\<close>, on every host, and nothing is done
  on the host.
\<close>

theorem pre_start_vetoes_volume_provider:
  assumes "map_of (extra_data (instance_container inst)) ''provides-volume'' = Some v"
    and "v \<noteq> []"
  shows "pre_start cl app host inst =
           (Vetoed (ValueError (''You cannot run a volume-providing container ''
                                 @ name (instance_container inst))), host, [])"
  using assms by (simp add: pre_start_def provides_volume_def truthy_str_def)

theorem pre_start_vetoes_volume_provider_witness:
  "pre_start idle_client volume_catalog built_host
       \<lparr>instance_name = ''assets-builder.1'', instance_container = assets_provider\<rparr> =
     (Vetoed (ValueError ''You cannot run a volume-providing container assets-builder''),
      built_host, [])"
  using pre_start_vetoes_volume_provider
    [of "\<lparr>instance_name = ''assets-builder.1'', instance_container = assets_provider\<rparr>"
        "''assets''" idle_client volume_catalog built_host]
  by (simp add: assets_provider_def plain_def)

text \<open>The events of the hook follow \<open>on_demand\<close>.\<close>

lemma build_missing_on_demand:
  "build_missing cl P vs (host, tr) = (ok, h', tr') \<Longrightarrow>
     \<exists>new. tr' = tr @ new \<and> on_demand P vs new ok"
proof (induction vs arbitrary: host tr)
  case Nil
  then show ?case by simp
next
  case (Cons v vs)
  show ?case
  proof (cases "P v")
    case None
    with Cons show ?thesis by simp
  next
    case (Some p)
    show ?thesis
    proof (cases "volume_labels host v")
      case found: (Some details)
      with Cons.prems Some
      have "build_missing cl P vs (host, tr @ [Inspected v True]) = (ok, h', tr')" by simp
      from Cons.IH [OF this] obtain new where
        "tr' = tr @ Inspected v True # new" "on_demand P vs new ok" by auto
      then show ?thesis using Some by auto
    next
      case None
      obtain b h where pb: "provider_build cl host p = (b, h)"
        by (cases "provider_build cl host p")
      show ?thesis
      proof (cases b)
        case True
        with Cons.prems Some None pb
        have "build_missing cl P vs (h, tr @ [Inspected v False, Built p True]) = (ok, h', tr')"
          by simp
        from Cons.IH [OF this] obtain new where
          "tr' = tr @ Inspected v False # Built p True # new" "on_demand P vs new ok" by auto
        then show ?thesis using Some by auto
      next
        case False
        with Cons.prems Some None pb show ?thesis by auto
      qed
    qed
  qed
qed

lemma on_demand_builds:
  "on_demand P vs new ok \<Longrightarrow> new = pre @ Built p b # post \<Longrightarrow>
     \<exists>pre' v. pre = pre' @ [Inspected v False] \<and> P v = Some p \<and> v \<in> set vs"
proof (induction vs arbitrary: new pre)
  case Nil
  then show ?case by simp
next
  case (Cons v vs)
  show ?case
  proof (cases "P v")
    case None
    with Cons.prems have "on_demand P vs new ok" by simp
    from Cons.IH [OF this Cons.prems(2)] show ?thesis by auto
  next
    case (Some q)
    with Cons.prems(1) consider
      (found) rest where "new = Inspected v True # rest" "on_demand P vs rest ok"
      | (built) rest where "new = Inspected v False # Built q True # rest" "on_demand P vs rest ok"
      | (failed) "new = [Inspected v False, Built q False]"
      by auto
    then show ?thesis
    proof cases
      case found
      with Cons.prems(2) obtain pre1 where
        p1: "pre = Inspected v True # pre1" "rest = pre1 @ Built p b # post"
        by (cases pre) auto
      from Cons.IH [OF found(2) p1(2)] obtain pre' v' where
        "pre1 = pre' @ [Inspected v' False]" "P v' = Some p" "v' \<in> set vs" by blast
      then show ?thesis using p1(1) by auto
    next
      case built
      show ?thesis
      proof (cases "pre = [Inspected v False]")
        case True
        with built Cons.prems(2) Some show ?thesis by auto
      next
        case False
        with built Cons.prems(2) obtain pre1 where
          p1: "pre = Inspected v False # Built q True # pre1" "rest = pre1 @ Built p b # post"
          by (cases pre; cases "tl pre") auto
        from Cons.IH [OF built(2) p1(2)] obtain pre' v' where
          "pre1 = pre' @ [Inspected v' False]" "P v' = Some p" "v' \<in> set vs" by blast
        then show ?thesis using p1(1) by auto
      qed
    next
      case failed
      with Cons.prems(2) have "pre = [Inspected v False] \<and> p = q"
        by (cases pre; cases "tl pre") auto
      then show ?thesis using Some by auto
    qed
  qed
qed

lemma on_demand_head:
  "on_demand P vs new ok \<Longrightarrow> new \<noteq> [] \<Longrightarrow> \<exists>v b. hd new = Inspected v b"
  by (induction vs arbitrary: new) (auto split: option.splits)

lemma on_demand_existing:
  "on_demand P vs new ok \<Longrightarrow> new = pre @ Inspected v True # post \<Longrightarrow>
     post = [] \<or> (\<exists>v' b. hd post = Inspected v' b)"
proof (induction vs arbitrary: new pre)
  case Nil
  then show ?case by simp
next
  case (Cons u vs)
  show ?case
  proof (cases "P u")
    case None
    with Cons.prems have "on_demand P vs new ok" by simp
    from Cons.IH [OF this Cons.prems(2)] show ?thesis .
  next
    case (Some q)
    with Cons.prems(1) consider
      (found) rest where "new = Inspected u True # rest" "on_demand P vs rest ok"
      | (built) rest where "new = Inspected u False # Built q True # rest" "on_demand P vs rest ok"
      | (failed) "new = [Inspected u False, Built q False]"
      by auto
    then show ?thesis
    proof cases
      case found
      show ?thesis
      proof (cases pre)
        case Nil
        with found Cons.prems(2) have "post = rest" by simp
        with on_demand_head [OF found(2)] show ?thesis by blast
      next
        case (Cons e pre1)
        with found Cons.prems(2) have "rest = pre1 @ Inspected v True # post" by simp
        from Cons.IH [OF found(2) this] show ?thesis .
      qed
    next
      case built
      with Cons.prems(2) obtain pre1 where
        "pre = Inspected u False # Built q True # pre1" "rest = pre1 @ Inspected v True # post"
        by (cases pre; cases "tl pre") auto
      from Cons.IH [OF built(2) this(2)] show ?thesis .
    next
      case failed
      with Cons.prems(2) show ?thesis by (cases pre; cases "tl pre") auto
    qed
  qed
qed

lemma on_demand_all_provided:
  "on_demand P vs new True \<Longrightarrow> v \<in> set vs \<Longrightarrow> P v = Some p \<Longrightarrow>
     (\<exists>pre post. new = pre @ Inspected v True # post)
     \<or> (\<exists>pre post. new = pre @ Inspected v False # Built p True # post)"
proof (induction vs arbitrary: new)
  case Nil
  then show ?case by simp
next
  case (Cons u vs)
  have rec: ?case if "new = chunk @ rest" "on_demand P vs rest True" "v \<in> set vs" for chunk rest
  proof -
    from Cons.IH [OF that(2,3) Cons.prems(3)] show ?thesis
    proof (elim disjE exE)
      fix pre post assume "rest = pre @ Inspected v True # post"
      then have "new = (chunk @ pre) @ Inspected v True # post" using that(1) by simp
      then show ?thesis by blast
    next
      fix pre post assume "rest = pre @ Inspected v False # Built p True # post"
      then have "new = (chunk @ pre) @ Inspected v False # Built p True # post"
        using that(1) by simp
      then show ?thesis by blast
    qed
  qed
  show ?case
  proof (cases "P u")
    case None
    with Cons.prems have "on_demand P vs new True" "v \<in> set vs" by auto
    with rec [of "[]" new] show ?thesis by simp
  next
    case (Some q)
    with Cons.prems(1) consider
      (found) rest where "new = Inspected u True # rest" "on_demand P vs rest True"
      | (built) rest where "new = Inspected u False # Built q True # rest" "on_demand P vs rest True"
      by auto
    then show ?thesis
    proof cases
      case found
      show ?thesis
      proof (cases "v = u")
        case True
        with found have "new = [] @ Inspected v True # rest" by simp
        then show ?thesis by blast
      next
        case False
        with Cons.prems(2) have "v \<in> set vs" by simp
        with rec [of "[Inspected u True]" rest] found show ?thesis by simp
      qed
    next
      case built
      show ?thesis
      proof (cases "v = u")
        case True
        with built Some Cons.prems(3) have "new = [] @ Inspected v False # Built p True # rest"
          by simp
        then show ?thesis by blast
      next
        case False
        with Cons.prems(2) have "v \<in> set vs" by simp
        with rec [of "[Inspected u False, Built q True]" rest] built show ?thesis by simp
      qed
    qed
  qed
qed


lemma on_demand_missing:
  "on_demand P vs new ok \<Longrightarrow> new = pre @ Inspected v False # post \<Longrightarrow>
     \<exists>p b post'. P v = Some p \<and> post = Built p b # post'"
proof (induction vs arbitrary: new pre)
  case Nil
  then show ?case by simp
next
  case (Cons u vs)
  show ?case
  proof (cases "P u")
    case None
    with Cons.prems have "on_demand P vs new ok" by simp
    from Cons.IH [OF this Cons.prems(2)] show ?thesis .
  next
    case (Some q)
    with Cons.prems(1) consider
      (found) rest where "new = Inspected u True # rest" "on_demand P vs rest ok"
      | (built) rest where "new = Inspected u False # Built q True # rest" "on_demand P vs rest ok"
      | (failed) "new = [Inspected u False, Built q False]"
      by auto
    then show ?thesis
    proof cases
      case found
      with Cons.prems(2) obtain pre1 where
        "pre = Inspected u True # pre1" "rest = pre1 @ Inspected v False # post"
        by (cases pre) auto
      from Cons.IH [OF found(2) this(2)] show ?thesis .
    next
      case built
      show ?thesis
      proof (cases pre)
        case Nil
        with built Cons.prems(2) Some show ?thesis by auto
      next
        case (Cons e pre0)
        with built Cons.prems(2) obtain pre1 where
          "pre = Inspected u False # Built q True # pre1"
          "rest = pre1 @ Inspected v False # post"
          by (cases pre0) auto
        from Cons.IH [OF built(2) this(2)] show ?thesis .
      qed
    next
      case failed
      with Cons.prems(2) Some show ?thesis by (cases pre; cases "tl pre") auto
    qed
  qed
qed

lemma build_missing_first_inspections:
  "build_missing cl P vs (host, tr) = (ok, h', tr') \<Longrightarrow>
     \<exists>new. tr' = tr @ new \<and>
       (\<forall>pre v b post. new = pre @ Inspected v b # post \<longrightarrow>
          (\<forall>e \<in> set pre. \<exists>v' b'. e = Inspected v' b') \<longrightarrow>
          b = (volume_labels host v \<noteq> None))"
proof (induction vs arbitrary: tr)
  case Nil
  then show ?case by simp
next
  case (Cons u vs)
  show ?case
  proof (cases "P u")
    case None
    with Cons show ?thesis by simp
  next
    case (Some p)
    show ?thesis
    proof (cases "volume_labels host u")
      case found: (Some details)
      with Cons.prems Some
      have "build_missing cl P vs (host, tr @ [Inspected u True]) = (ok, h', tr')" by simp
      from Cons.IH [OF this] obtain new where
        new: "tr' = tr @ Inspected u True # new"
        "\<forall>pre v b post. new = pre @ Inspected v b # post \<longrightarrow>
          (\<forall>e \<in> set pre. \<exists>v' b'. e = Inspected v' b') \<longrightarrow>
          b = (volume_labels host v \<noteq> None)"
        by auto
      have "b = (volume_labels host v \<noteq> None)"
        if a: "Inspected u True # new = pre @ Inspected v b # post"
          "\<forall>e \<in> set pre. \<exists>v' b'. e = Inspected v' b'" for pre v b post
      proof (cases pre)
        case Nil
        with a(1) found show ?thesis by simp
      next
        case (Cons e pre1)
        with a have "new = pre1 @ Inspected v b # post"
          "\<forall>e \<in> set pre1. \<exists>v' b'. e = Inspected v' b'" by simp_all
        with new(2) show ?thesis by blast
      qed
      with new(1) show ?thesis by blast
    next
      case None
      obtain x h where pb: "provider_build cl host p = (x, h)"
        by (cases "provider_build cl host p")
      obtain new where new: "tr' = tr @ Inspected u False # Built p x # new"
      proof (cases x)
        case True
        with Cons.prems Some None pb
        have "build_missing cl P vs (h, tr @ [Inspected u False, Built p True]) = (ok, h', tr')"
          by simp
        from build_missing_on_demand [OF this] True that show ?thesis by auto
      next
        case False
        with Cons.prems Some None pb that show ?thesis by auto
      qed
      have "b = (volume_labels host v \<noteq> None)"
        if a: "Inspected u False # Built p x # new = pre @ Inspected v b # post"
          "\<forall>e \<in> set pre. \<exists>v' b'. e = Inspected v' b'" for pre v b post
      proof (cases pre)
        case Nil
        with a(1) None show ?thesis by simp
      next
        case (Cons e pre1)
        with a show ?thesis by (cases pre1) auto
      qed
      with new show ?thesis by blast
    qed
  qed
qed

text \<open>
  Claim C10. For a container that provides no volume, the hook \<^verbatim>\<open>PRE_START\<close> either
  lets the start proceed or leaves with the failure of a build. When the start
  proceeds, every volume the container mounts that has a provider was inspected, and
  if it was not found the inspection is followed at once by the successful build of
  its provider. An inspection that does not find the volume is always followed by the
  build of the provider; an inspection that finds it is followed by no build; every
  build follows the failed inspection of a volume its container provides. The
  inspections up to the first build report the volumes of the host as it was given.
\<close>

theorem pre_start_builds_missing_volumes:
  assumes plain: "\<not> truthy_str (provides_volume (instance_container inst))"
    and run: "pre_start cl app host inst = (out, h, tr)"
  shows "(out = Proceed \<or> out = BuildFailed)
    \<and> (out = Proceed \<longrightarrow>
         (\<forall>v p. v \<in> snd ` set (named_volumes (instance_container inst))
                \<longrightarrow> get_providers app v = Some p
                \<longrightarrow> (\<exists>pre post. tr = pre @ Inspected v True # post)
                    \<or> (\<exists>pre post. tr = pre @ Inspected v False # Built p True # post)))
    \<and> (\<forall>pre v post. tr = pre @ Inspected v False # post
          \<longrightarrow> (\<exists>p b post'. get_providers app v = Some p \<and> post = Built p b # post'))
    \<and> (\<forall>pre v post. tr = pre @ Inspected v True # post
          \<longrightarrow> post = [] \<or> (\<exists>v' b. hd post = Inspected v' b))
    \<and> (\<forall>pre p b post. tr = pre @ Built p b # post
          \<longrightarrow> (\<exists>pre' v. pre = pre' @ [Inspected v False] \<and> get_providers app v = Some p
                         \<and> v \<in> snd ` set (named_volumes (instance_container inst))))
    \<and> (\<forall>pre v b post. tr = pre @ Inspected v b # post
          \<longrightarrow> (\<forall>e \<in> set pre. \<exists>v' b'. e = Inspected v' b')
          \<longrightarrow> b = (volume_labels host v \<noteq> None))"
proof -
  let ?P = "get_providers app"
  let ?vs = "map snd (named_volumes (instance_container inst))"
  obtain ok where bm: "build_missing cl ?P ?vs (host, []) = (ok, h, tr)"
    and out: "out = (if ok then Proceed else BuildFailed)"
    using plain run by (auto simp: pre_start_def Let_def split: prod.splits bool.splits)
  from build_missing_on_demand [OF bm] have od: "on_demand ?P ?vs tr ok" by simp
  have vs: "set ?vs = snd ` set (named_volumes (instance_container inst))" by simp
  have a: "out = Proceed \<or> out = BuildFailed" using out by simp
  have b: "out = Proceed \<longrightarrow>
         (\<forall>v p. v \<in> snd ` set (named_volumes (instance_container inst))
                \<longrightarrow> ?P v = Some p
                \<longrightarrow> (\<exists>pre post. tr = pre @ Inspected v True # post)
                    \<or> (\<exists>pre post. tr = pre @ Inspected v False # Built p True # post))"
  proof (intro impI allI)
    fix v p
    assume "out = Proceed" "v \<in> snd ` set (named_volumes (instance_container inst))"
      "?P v = Some p"
    then have "on_demand ?P ?vs tr True" "v \<in> set ?vs"
      using od out by (auto split: if_splits)
    from on_demand_all_provided [OF this \<open>?P v = Some p\<close>]
    show "(\<exists>pre post. tr = pre @ Inspected v True # post)
            \<or> (\<exists>pre post. tr = pre @ Inspected v False # Built p True # post)" .
  qed
  have c: "\<forall>pre v post. tr = pre @ Inspected v False # post
          \<longrightarrow> (\<exists>p b post'. ?P v = Some p \<and> post = Built p b # post')"
    using on_demand_missing [OF od] by blast
  have d: "\<forall>pre v post. tr = pre @ Inspected v True # post
          \<longrightarrow> post = [] \<or> (\<exists>v' b. hd post = Inspected v' b)"
    using on_demand_existing [OF od] by blast
  have e: "\<forall>pre p b post. tr = pre @ Built p b # post
          \<longrightarrow> (\<exists>pre' v. pre = pre' @ [Inspected v False] \<and> ?P v = Some p
                         \<and> v \<in> snd ` set (named_volumes (instance_container inst)))"
    using on_demand_builds [OF od] unfolding vs by blast
  have f: "\<forall>pre v b post. tr = pre @ Inspected v b # post
          \<longrightarrow> (\<forall>e \<in> set pre. \<exists>v' b'. e = Inspected v' b')
          \<longrightarrow> b = (volume_labels host v \<noteq> None)"
    using build_missing_first_inspections [OF bm] by simp
  from a b c d e f show ?thesis by blast
qed

lemma web_start:
  "pre_start idle_client volume_catalog built_host
     \<lparr>instance_name = ''web.1'', instance_container = web\<rparr>
   = (Proceed, built_host, [Inspected ''assets'' False, Built assets_provider True])"
  by (simp add: pre_start_def web_def plain_def truthy_str_def provides_volume_def
      volume_catalog_def get_providers_def add_provider_def assets_provider_def
      built_host_def idle_client_def)

theorem pre_start_builds_missing_volumes_witness:
  "\<not> truthy_str (provides_volume web)
   \<and> get_providers volume_catalog ''assets'' = Some assets_provider
   \<and> volume_labels built_host ''assets'' = None
   \<and> snd (snd (pre_start idle_client volume_catalog built_host
                   \<lparr>instance_name = ''web.1'', instance_container = web\<rparr>))
       = [] @ Inspected ''assets'' False # Built assets_provider True # []"
proof -
  have np: "\<not> truthy_str (provides_volume web)"
    by (simp add: web_def plain_def truthy_str_def provides_volume_def)
  have gp: "get_providers volume_catalog ''assets'' = Some assets_provider"
    by (simp add: volume_catalog_def get_providers_def add_provider_def assets_provider_def
        web_def plain_def truthy_str_def provides_volume_def)
  have nv: "volume_labels built_host ''assets'' = None" by (simp add: built_host_def)
  have m: "''assets'' \<in> snd ` set (named_volumes web)" by (simp add: web_def plain_def)
  from pre_start_builds_missing_volumes
    [of "\<lparr>instance_name = ''web.1'', instance_container = web\<rparr>" idle_client
        volume_catalog built_host Proceed built_host
        "[Inspected ''assets'' False, Built assets_provider True]"]
    np web_start
  have "(\<forall>pre v post. [Inspected ''assets'' False, Built assets_provider True]
             = pre @ Inspected v False # post
          \<longrightarrow> (\<exists>p b post'. get_providers volume_catalog v = Some p \<and> post = Built p b # post'))"
    by simp
  then show ?thesis using np gp nv by (simp add: web_start)
qed

end
